theory Spec2Isabelle
  imports Main "HOL-Library.Word"
begin

unbundle bit_operations_syntax

section \<open>Bytes, buffers and the libc primitives the reader uses\<close>

text \<open>
  The backing buffer of \<^verbatim>\<open>FastReader\<close> is a byte range \<^verbatim>\<open>[data, data+size)\<close>.  It is modelled
  as a list of 8-bit characters; a pointer into the buffer is the offset from \<^verbatim>\<open>data\<close>,
  and \<^verbatim>\<open>size\<close> is the length of the list.
\<close>

text \<open>The bytes \<^verbatim>\<open>[ptr, ptr+len)\<close> of a buffer.\<close>

definition bytes :: "string \<Rightarrow> nat \<Rightarrow> nat \<Rightarrow> string" where
  "bytes d ptr len = take len (drop ptr d)"

text \<open>
  \<^verbatim>\<open>memchr(d + s, c, n)\<close>: the offset of the first byte equal to \<open>c\<close> among the \<open>n\<close> bytes
  from offset \<open>s\<close>, or \<open>None\<close> for the null pointer.
\<close>

fun memchr :: "string \<Rightarrow> nat \<Rightarrow> char \<Rightarrow> nat \<Rightarrow> nat option" where
  "memchr d s c 0 = None"
| "memchr d s c (Suc n) = (if d ! s = c then Some s else memchr d (Suc s) c n)"

text \<open>The value of a byte read as \<^verbatim>\<open>unsigned char\<close>, and as \<^verbatim>\<open>char\<close> (signed, as on x86).\<close>

definition uchar :: "char \<Rightarrow> nat" where
  "uchar c = of_char c"

definition schar :: "char \<Rightarrow> int" where
  "schar c = (if uchar c < 128 then int (uchar c) else int (uchar c) - 256)"

text \<open>
  The value of a C \<^verbatim>\<open>int\<close> after an arithmetic result \<open>x\<close>: the result reduced to 32 bits in
  two's complement, which is what the compiled increment and decrement leave behind when
  the result passes \<^verbatim>\<open>INT_MAX\<close> or \<^verbatim>\<open>INT_MIN\<close>.
\<close>

definition c_int :: "int \<Rightarrow> int" where
  "c_int x = (x + 2147483648) mod 4294967296 - 2147483648"

text \<open>The whitespace test that \<^verbatim>\<open>skip_spaces\<close>, \<^verbatim>\<open>is_blank\<close> and the name scanners share.\<close>

definition is_space :: "char \<Rightarrow> bool" where
  "is_space c = (c = CHR '' '' \<or> c = CHR 0x09 \<or> c = CHR 0x0A \<or> c = CHR 0x0D)"

section \<open>Entity decoding\<close>

text \<open>
  \<^verbatim>\<open>unsigned long cp\<close> is a 64-bit word (LP64).  The hexadecimal loop of
  \<^verbatim>\<open>decode_entities\<close>, over \<^verbatim>\<open>ename[i]\<close> for \<^verbatim>\<open>i\<close> from the given index up to \<^verbatim>\<open>elen\<close>;
  \<open>e\<close> is the offset of \<^verbatim>\<open>ename\<close> in the source.
\<close>

function hex_loop :: "string \<Rightarrow> nat \<Rightarrow> nat \<Rightarrow> nat \<Rightarrow> 64 word \<Rightarrow> 64 word" where
  "hex_loop src e elen i cp =
     (if i < elen then
        (let c = src ! (e + i);
             cp1 = push_bit 4 cp;
             cp2 = (if schar (CHR ''0'') \<le> schar c \<and> schar c \<le> schar (CHR ''9'')
                      then cp1 + word_of_int (schar c - schar (CHR ''0''))
                    else if schar (CHR ''a'') \<le> schar c \<and> schar c \<le> schar (CHR ''f'')
                      then cp1 + word_of_int (schar c - schar (CHR ''a'') + 10)
                    else if schar (CHR ''A'') \<le> schar c \<and> schar c \<le> schar (CHR ''F'')
                      then cp1 + word_of_int (schar c - schar (CHR ''A'') + 10)
                    else cp1)
         in hex_loop src e elen (i + 1) cp2)
      else cp)"
  by pat_completeness auto
termination
  by (relation "measure (\<lambda>(src, e, elen, i, cp). elen - i)") auto

declare hex_loop.simps [simp del]

text \<open>The decimal loop: no digit check, the difference to \<^verbatim>\<open>'0'\<close> is converted to \<^verbatim>\<open>unsigned long\<close>.\<close>

function dec_loop :: "string \<Rightarrow> nat \<Rightarrow> nat \<Rightarrow> nat \<Rightarrow> 64 word \<Rightarrow> 64 word" where
  "dec_loop src e elen i cp =
     (if i < elen then
        dec_loop src e elen (i + 1)
          (cp * 10 + word_of_int (schar (src ! (e + i)) - schar (CHR ''0'')))
      else cp)"
  by pat_completeness auto
termination
  by (relation "measure (\<lambda>(src, e, elen, i, cp). elen - i)") auto

declare dec_loop.simps [simp del]

text \<open>A value converted to \<^verbatim>\<open>char\<close> keeps its low eight bits.\<close>

definition to_char :: "64 word \<Rightarrow> char" where
  "to_char w = char_of (unat w)"

text \<open>The UTF-8 encoding step: the bytes \<^verbatim>\<open>u8[0..u8len)\<close>.\<close>

definition utf8_encode :: "64 word \<Rightarrow> string" where
  "utf8_encode cp =
     (if cp < 0x80 then [to_char cp]
      else if cp < 0x800 then
        [to_char (0xC0 OR drop_bit 6 cp), to_char (0x80 OR (cp AND 0x3F))]
      else if cp < 0x10000 then
        [to_char (0xE0 OR drop_bit 12 cp),
         to_char (0x80 OR (drop_bit 6 cp AND 0x3F)),
         to_char (0x80 OR (cp AND 0x3F))]
      else
        [to_char (0xF0 OR drop_bit 18 cp),
         to_char (0x80 OR (drop_bit 12 cp AND 0x3F)),
         to_char (0x80 OR (drop_bit 6 cp AND 0x3F)),
         to_char (0x80 OR (cp AND 0x3F))])"

text \<open>
  What one \<^verbatim>\<open>&...;\<close> reference appends to the output buffer: \<open>amp\<close> and \<open>semi\<close> are the
  offsets of the \<^verbatim>\<open>&\<close> and of the \<^verbatim>\<open>;\<close> found after it.
\<close>

definition decode_one :: "string \<Rightarrow> nat \<Rightarrow> nat \<Rightarrow> string" where
  "decode_one src amp semi =
     (let elen = semi - amp - 1;
          ename = amp + 1
      in if elen = 3 \<and> bytes src ename 3 = ''amp'' then ''&''
         else if elen = 2 \<and> bytes src ename 2 = ''lt'' then ''<''
         else if elen = 2 \<and> bytes src ename 2 = ''gt'' then ''>''
         else if elen = 4 \<and> bytes src ename 4 = ''quot'' then [CHR 0x22]
         else if elen = 4 \<and> bytes src ename 4 = ''apos'' then [CHR 0x27]
         else if elen > 1 \<and> src ! ename = CHR ''#'' then
           utf8_encode
             (if src ! (ename + 1) = CHR ''x'' \<or> src ! (ename + 1) = CHR ''X''
              then hex_loop src ename elen 2 0
              else dec_loop src ename elen 1 0)
         else bytes src amp (semi - amp + 1))"

lemma memchr_Some:
  "memchr d s c n = Some i \<Longrightarrow> s \<le> i \<and> i < s + n \<and> d ! i = c"
  by (induction d s c n rule: memchr.induct) (auto split: if_splits)

lemma memchr_range:
  "memchr d s c n = Some i \<Longrightarrow> s + n \<le> m \<Longrightarrow> s \<le> i \<and> i < m"
  using memchr_Some [of d s c n i] by simp

lemma memchr_upto:
  "memchr d s c (m - s) = Some i \<Longrightarrow> s \<le> i \<and> i < m"
  using memchr_Some [of d s c "m - s" i] by (cases "s \<le> m") simp_all

lemma memchr_Some_first:
  "memchr d s c n = Some i \<Longrightarrow> s \<le> j \<Longrightarrow> j < i \<Longrightarrow> d ! j \<noteq> c"
proof (induction d s c n arbitrary: j rule: memchr.induct)
  case (1 d s c)
  then show ?case by simp
next
  case (2 d s c n)
  show ?case
  proof (cases "d ! s = c")
    case True
    with "2.prems" show ?thesis by simp
  next
    case False
    with "2.prems" have m: "memchr d (Suc s) c n = Some i" by simp
    show ?thesis
    proof (cases "j = s")
      case True
      with False show ?thesis by simp
    next
      case False
      with "2.prems" have "Suc s \<le> j" by simp
      with "2.IH" \<open>d ! s \<noteq> c\<close> m "2.prems" show ?thesis by blast
    qed
  qed
qed

lemma memchr_None:
  "memchr d s c n = None \<Longrightarrow> s \<le> j \<Longrightarrow> j < s + n \<Longrightarrow> d ! j \<noteq> c"
proof (induction d s c n arbitrary: j rule: memchr.induct)
  case (1 d s c)
  then show ?case by simp
next
  case (2 d s c n)
  from "2.prems" have ne: "d ! s \<noteq> c" and m: "memchr d (Suc s) c n = None"
    by (auto split: if_splits)
  show ?case
  proof (cases "j = s")
    case True
    with ne show ?thesis by simp
  next
    case False
    with "2.prems" have "Suc s \<le> j" "j < Suc s + n" by simp_all
    with "2.IH" ne m show ?thesis by blast
  qed
qed

text \<open>
  \<^verbatim>\<open>decode_entities\<close>, slow path: the \<^verbatim>\<open>while (p < end)\<close> loop over the source
  \<^verbatim>\<open>[src, src+len)\<close>, with the output buffer passed along.
\<close>

function decode_loop :: "string \<Rightarrow> nat \<Rightarrow> string \<Rightarrow> string" where
  "decode_loop src p buf =
     (if p < length src then
        (case memchr src p (CHR ''&'') (length src - p) of
           None \<Rightarrow> buf @ bytes src p (length src - p)
         | Some amp \<Rightarrow>
             (let buf1 = (if amp > p then buf @ bytes src p (amp - p) else buf)
              in case memchr src amp (CHR '';'') (length src - amp) of
                   None \<Rightarrow> decode_loop src (amp + 1) (buf1 @ bytes src amp 1)
                 | Some semi \<Rightarrow> decode_loop src (semi + 1) (buf1 @ decode_one src amp semi)))
      else buf)"
  by pat_completeness auto
termination
proof (relation "measure (\<lambda>(src, p, buf). length src - p)")
  show "wf (measure (\<lambda>(src, p, buf). length src - p))" by simp
next
  fix src :: string and p :: nat and buf :: string and amp buf1
  assume "p < length src" and "memchr src p (CHR ''&'') (length src - p) = Some amp"
  then have "p \<le> amp" "amp < length src"
    using memchr_Some [of src p "CHR ''&''" "length src - p" amp] by simp_all
  then show "((src, amp + 1, buf1 @ bytes src amp 1), (src, p, buf))
      \<in> measure (\<lambda>(src, p, buf). length src - p)"
    by simp
next
  fix src :: string and p :: nat and buf :: string and amp buf1 semi
  assume "p < length src" and "memchr src p (CHR ''&'') (length src - p) = Some amp"
    and "memchr src amp (CHR '';'') (length src - amp) = Some semi"
  then have "p \<le> amp" "amp < length src" "amp \<le> semi" "semi < length src"
    using memchr_Some [of src p "CHR ''&''" "length src - p" amp]
      memchr_Some [of src amp "CHR '';''" "length src - amp" semi] by simp_all
  then show "((src, semi + 1, buf1 @ decode_one src amp semi), (src, p, buf))
      \<in> measure (\<lambda>(src, p, buf). length src - p)"
    by simp
qed

declare decode_loop.simps [simp del]

text \<open>
  \<^verbatim>\<open>decode_entities(r, src, len)\<close>: the bytes of the Ruby string it returns.  The reader
  argument only supplies the encoding tag.
\<close>

definition decode_entities :: "string \<Rightarrow> string" where
  "decode_entities src =
     (if memchr src 0 (CHR ''&'') (length src) = None then src
      else decode_loop src 0 [])"

section \<open>The reader state\<close>

text \<open>
  A Ruby \<^verbatim>\<open>VALUE\<close> is \<^verbatim>\<open>Qnil\<close> or a String object, named by its address in the object
  space; the object space is the list of the strings allocated so far.  A pointer to
  the buffer of a Ruby string (\<^verbatim>\<open>RSTRING_PTR\<close>) is the address of that string.
\<close>

datatype rb_value = Qnil | Str nat

type_synonym rb_heap = "string list"

definition rb_enc_str_new :: "rb_heap \<Rightarrow> string \<Rightarrow> rb_value \<times> rb_heap" where
  "rb_enc_str_new h bs = (Str (length h), h @ [bs])"

text \<open>\<^verbatim>\<open>CacheEntry\<close>: \<open>ptr\<close> is \<open>None\<close> for the null pointer.\<close>

record cache_entry =
  ptr :: "nat option"
  len :: nat
  rb_str :: rb_value

text \<open>\<^verbatim>\<open>AttrEntry\<close>: the pointers are offsets into the backing buffer.\<close>

record attr_entry =
  attr_name_ptr :: nat
  attr_name_len :: nat
  val_ptr :: nat
  val_len :: nat
  val_has_entity :: bool

text \<open>
  \<^verbatim>\<open>FastReader\<close>.  \<^verbatim>\<open>size\<close> is the length of \<open>data\<close>; \<open>attrs\<close> holds the entries
  \<^verbatim>\<open>attrs[0..attr_count)\<close>, so \<^verbatim>\<open>attr_count\<close> is its length (the entries of the C array beyond
  \<^verbatim>\<open>attr_count\<close> are never read); \<open>name_cache\<close> is the array of \<^verbatim>\<open>NAME_CACHE_SIZE\<close> entries,
  indexed by slot.  \<open>depth\<close> and \<open>report_depth\<close> are C \<^verbatim>\<open>int\<close>s: integers that every
  increment reduces to 32 bits with \<open>c_int\<close>.
\<close>

record reader =
  data :: string
  pos :: nat
  depth :: int
  report_depth :: int
  node_type :: int
  is_empty :: bool
  name_ptr :: "nat option"
  name_len :: nat
  text_ptr :: "nat option"
  text_len :: nat
  text_has_entity :: bool
  decoded_text :: rb_value
  attrs :: "attr_entry list"
  name_cache :: "nat \<Rightarrow> cache_entry"

abbreviation rsize :: "reader \<Rightarrow> nat" where
  "rsize r \<equiv> length (data r)"

abbreviation attr_count :: "reader \<Rightarrow> nat" where
  "attr_count r \<equiv> length (attrs r)"

definition TYPE_ELEMENT :: int where "TYPE_ELEMENT = 1"
definition TYPE_TEXT :: int where "TYPE_TEXT = 3"
definition TYPE_END_ELEMENT :: int where "TYPE_END_ELEMENT = 15"
definition NAME_CACHE_MASK :: "32 word" where "NAME_CACHE_MASK = 512 - 1"
definition MAX_ATTRS :: nat where "MAX_ATTRS = 32"

section \<open>Name interning\<close>

definition fnv1a :: "string \<Rightarrow> 32 word" where
  "fnv1a name = foldl (\<lambda>h c. (h XOR of_nat (uchar c)) * 16777619) 2166136261 name"

text \<open>
  \<^verbatim>\<open>intern_name(r, ptr, len)\<close>: \<open>name\<close> is the byte slice \<^verbatim>\<open>[ptr, ptr+len)\<close>.  The linear
  probe from iteration \<open>i\<close>; \<^verbatim>\<open>memcmp(e->ptr, ptr, len)\<close> reads the first \<^verbatim>\<open>len\<close> bytes of the
  string \<^verbatim>\<open>e->ptr\<close> points into.
\<close>

function intern_probe ::
  "rb_heap \<Rightarrow> reader \<Rightarrow> string \<Rightarrow> 32 word \<Rightarrow> nat \<Rightarrow> rb_value \<times> rb_heap \<times> reader" where
  "intern_probe h r name idx i =
     (if i < 8 then
        (let slot = unat ((idx + of_nat i) AND NAME_CACHE_MASK);
             e = name_cache r slot
         in case ptr e of
              None \<Rightarrow>
                (let (s, h') = rb_enc_str_new h name
                 in (s, h', r\<lparr>name_cache := (name_cache r)
                       (slot := \<lparr>ptr = Some (length h), len = length name, rb_str = s\<rparr>)\<rparr>))
            | Some a \<Rightarrow>
                if len e = length name \<and> take (length name) (h ! a) = name
                then (rb_str e, h, r)
                else intern_probe h r name idx (i + 1))
      else (let (s, h') = rb_enc_str_new h name in (s, h', r)))"
  by pat_completeness auto
termination
  by (relation "measure (\<lambda>(h, r, name, idx, i). 8 - i)") auto

declare intern_probe.simps [simp del]

definition intern_name :: "rb_heap \<Rightarrow> reader \<Rightarrow> string \<Rightarrow> rb_value \<times> rb_heap \<times> reader" where
  "intern_name h r name = intern_probe h r name (fnv1a name AND NAME_CACHE_MASK) 0"

section \<open>Scanning helpers\<close>

definition at_end :: "reader \<Rightarrow> bool" where
  "at_end r = (pos r \<ge> rsize r)"

function skip_spaces :: "reader \<Rightarrow> reader" where
  "skip_spaces r =
     (if pos r < rsize r then
        (if is_space (data r ! pos r) then skip_spaces (r\<lparr>pos := pos r + 1\<rparr>) else r)
      else r)"
  by pat_completeness auto
termination
  by (relation "measure (\<lambda>r. rsize r - pos r)") auto

declare skip_spaces.simps [simp del]

fun is_blank :: "string \<Rightarrow> nat \<Rightarrow> nat \<Rightarrow> bool" where
  "is_blank d p 0 = True"
| "is_blank d p (Suc n) = (if \<not> is_space (d ! p) then False else is_blank d (Suc p) n)"

function skip_comment :: "reader \<Rightarrow> reader" where
  "skip_comment r =
     (if pos r + 2 < rsize r then
        (case memchr (data r) (pos r) (CHR ''-'') (rsize r - pos r - 1) of
           None \<Rightarrow> r\<lparr>pos := rsize r\<rparr>
         | Some p \<Rightarrow>
             if p + 2 < rsize r \<and> data r ! p = CHR ''-'' \<and> data r ! (p + 1) = CHR ''-''
                \<and> data r ! (p + 2) = CHR ''>''
             then r\<lparr>pos := p + 3\<rparr>
             else skip_comment (r\<lparr>pos := p + 1\<rparr>))
      else r\<lparr>pos := rsize r\<rparr>)"
  by pat_completeness auto
termination
proof (relation "measure (\<lambda>r. rsize r - pos r)")
  show "wf (measure (\<lambda>r. rsize r - pos r))" by simp
next
  fix r :: reader and p
  assume "pos r + 2 < rsize r"
    and "memchr (data r) (pos r) (CHR ''-'') (rsize r - pos r - 1) = Some p"
  then have "pos r \<le> p" "p < rsize r"
    using memchr_range [of "data r" "pos r" "CHR ''-''" "rsize r - pos r - 1" p "rsize r"]
    by simp_all
  then show "(r\<lparr>pos := p + 1\<rparr>, r) \<in> measure (\<lambda>r. rsize r - pos r)" by simp
qed

declare skip_comment.simps [simp del]

function skip_pi :: "reader \<Rightarrow> reader" where
  "skip_pi r =
     (if pos r + 1 < rsize r then
        (case memchr (data r) (pos r) (CHR ''?'') (rsize r - pos r - 1) of
           None \<Rightarrow> r\<lparr>pos := rsize r\<rparr>
         | Some p \<Rightarrow>
             if data r ! (p + 1) = CHR ''>''
             then r\<lparr>pos := p + 2\<rparr>
             else skip_pi (r\<lparr>pos := p + 1\<rparr>))
      else r\<lparr>pos := rsize r\<rparr>)"
  by pat_completeness auto
termination
proof (relation "measure (\<lambda>r. rsize r - pos r)")
  show "wf (measure (\<lambda>r. rsize r - pos r))" by simp
next
  fix r :: reader and p
  assume "pos r + 1 < rsize r"
    and "memchr (data r) (pos r) (CHR ''?'') (rsize r - pos r - 1) = Some p"
  then have "pos r \<le> p" "p < rsize r"
    using memchr_range [of "data r" "pos r" "CHR ''?''" "rsize r - pos r - 1" p "rsize r"]
    by simp_all
  then show "(r\<lparr>pos := p + 1\<rparr>, r) \<in> measure (\<lambda>r. rsize r - pos r)" by simp
qed

declare skip_pi.simps [simp del]

function skip_cdata :: "reader \<Rightarrow> reader" where
  "skip_cdata r =
     (if pos r + 2 < rsize r then
        (case memchr (data r) (pos r) (CHR '']'') (rsize r - pos r - 2) of
           None \<Rightarrow> r\<lparr>pos := rsize r\<rparr>
         | Some p \<Rightarrow>
             if data r ! (p + 1) = CHR '']'' \<and> data r ! (p + 2) = CHR ''>''
             then r\<lparr>pos := p + 3\<rparr>
             else skip_cdata (r\<lparr>pos := p + 1\<rparr>))
      else r\<lparr>pos := rsize r\<rparr>)"
  by pat_completeness auto
termination
proof (relation "measure (\<lambda>r. rsize r - pos r)")
  show "wf (measure (\<lambda>r. rsize r - pos r))" by simp
next
  fix r :: reader and p
  assume "pos r + 2 < rsize r"
    and "memchr (data r) (pos r) (CHR '']'') (rsize r - pos r - 2) = Some p"
  then have "pos r \<le> p" "p < rsize r"
    using memchr_range [of "data r" "pos r" "CHR '']''" "rsize r - pos r - 2" p "rsize r"]
    by simp_all
  then show "(r\<lparr>pos := p + 1\<rparr>, r) \<in> measure (\<lambda>r. rsize r - pos r)" by simp
qed

declare skip_cdata.simps [simp del]

text \<open>
  \<^verbatim>\<open>skip_doctype\<close>: the loop, with the local \<^verbatim>\<open>bracket_depth\<close>, a C \<^verbatim>\<open>int\<close>, passed along.
\<close>

function skip_doctype_loop :: "reader \<Rightarrow> int \<Rightarrow> reader" where
  "skip_doctype_loop r bracket_depth =
     (if pos r < rsize r then
        (let c = data r ! pos r;
             r1 = r\<lparr>pos := pos r + 1\<rparr>
         in if c = CHR ''['' then skip_doctype_loop r1 (c_int (bracket_depth + 1))
            else if c = CHR '']'' then skip_doctype_loop r1 (c_int (bracket_depth - 1))
            else if c = CHR ''>'' \<and> bracket_depth = 0 then r1
            else skip_doctype_loop r1 bracket_depth)
      else r)"
  by pat_completeness auto
termination
  by (relation "measure (\<lambda>(r, b). rsize r - pos r)") auto

declare skip_doctype_loop.simps [simp del]

definition skip_doctype :: "reader \<Rightarrow> reader" where
  "skip_doctype r = skip_doctype_loop r 0"

text \<open>Facts about the skippers that the termination proofs of the loops below use.\<close>

lemma skip_spaces_frame:
  "skip_spaces r = r\<lparr>pos := pos (skip_spaces r)\<rparr> \<and> pos r \<le> pos (skip_spaces r)
     \<and> (pos r \<le> rsize r \<longrightarrow> pos (skip_spaces r) \<le> rsize r)"
proof (induction r rule: skip_spaces.induct)
  case (1 r)
  show ?case
  proof (cases "pos r < rsize r \<and> is_space (data r ! pos r)")
    case True
    then have eq: "skip_spaces r = skip_spaces (r\<lparr>pos := pos r + 1\<rparr>)"
      by (simp add: skip_spaces.simps [of r])
    from True "1.IH" have ih:
      "skip_spaces (r\<lparr>pos := pos r + 1\<rparr>)
         = r\<lparr>pos := pos r + 1\<rparr>\<lparr>pos := pos (skip_spaces (r\<lparr>pos := pos r + 1\<rparr>))\<rparr>"
      "pos r + 1 \<le> pos (skip_spaces (r\<lparr>pos := pos r + 1\<rparr>))"
      "pos (skip_spaces (r\<lparr>pos := pos r + 1\<rparr>)) \<le> rsize r"
      by simp_all
    show ?thesis
      unfolding eq using ih(2,3) by (subst ih(1)) simp
  next
    case False
    then have "skip_spaces r = r"
      by (auto simp: skip_spaces.simps [of r])
    then show ?thesis by simp
  qed
qed

lemma skip_spaces_stop:
  "pos (skip_spaces r) < rsize r \<Longrightarrow> \<not> is_space (data r ! pos (skip_spaces r))"
proof (induction r rule: skip_spaces.induct)
  case (1 r)
  show ?case
  proof (cases "pos r < rsize r \<and> is_space (data r ! pos r)")
    case True
    then have eq: "skip_spaces r = skip_spaces (r\<lparr>pos := pos r + 1\<rparr>)"
      by (simp add: skip_spaces.simps [of r])
    with True "1.IH" "1.prems" show ?thesis by simp
  next
    case False
    then have "skip_spaces r = r"
      by (auto simp: skip_spaces.simps [of r])
    with False "1.prems" show ?thesis by auto
  qed
qed

lemma frame_pos:
  assumes "r' = r\<lparr>pos := p\<rparr>"
  shows "data r' = data r" "depth r' = depth r" "report_depth r' = report_depth r"
    "node_type r' = node_type r" "is_empty r' = is_empty r" "name_ptr r' = name_ptr r"
    "name_len r' = name_len r" "text_ptr r' = text_ptr r" "text_len r' = text_len r"
    "text_has_entity r' = text_has_entity r" "decoded_text r' = decoded_text r"
    "attrs r' = attrs r" "name_cache r' = name_cache r"
  using assms by simp_all

lemma frame_pos_trans:
  "x = r\<lparr>pos := p\<rparr> \<Longrightarrow> y = x\<lparr>pos := q\<rparr> \<Longrightarrow> y = r\<lparr>pos := pos y\<rparr>"
  by simp

lemma frame_attrs_trans:
  "y = x\<lparr>pos := q, attrs := as\<rparr> \<Longrightarrow> x = r\<lparr>pos := p\<rparr> \<Longrightarrow> y = r\<lparr>pos := q, attrs := as\<rparr>"
  by simp

lemma skip_spaces_eq: "skip_spaces r = r\<lparr>pos := pos (skip_spaces r)\<rparr>"
  using skip_spaces_frame [of r] by simp

lemmas skip_spaces_fields [simp] = frame_pos [OF skip_spaces_eq]

lemma skip_spaces_ge: "pos r \<le> pos (skip_spaces r)"
  using skip_spaces_frame [of r] by simp

lemma skip_spaces_le: "pos r \<le> rsize r \<Longrightarrow> pos (skip_spaces r) \<le> rsize r"
  using skip_spaces_frame [of r] by simp

section \<open>Attribute parsing\<close>

text \<open>
  The body of a loop that can \<^verbatim>\<open>return\<close> or go round again (\<^verbatim>\<open>continue\<close>, \<^verbatim>\<open>goto again\<close>, or
  reaching the end of the body).
\<close>

datatype 'a flow = Return 'a | Again reader

text \<open>The attribute-name scan of \<^verbatim>\<open>parse_attrs\<close>.\<close>

definition attr_name_stop :: "char \<Rightarrow> bool" where
  "attr_name_stop c = (c = CHR ''='' \<or> c = CHR '' '' \<or> c = CHR 0x09 \<or> c = CHR 0x0A
     \<or> c = CHR 0x0D \<or> c = CHR ''>'' \<or> c = CHR ''/'')"

function scan_attr_name :: "reader \<Rightarrow> reader" where
  "scan_attr_name r =
     (if pos r < rsize r then
        (if attr_name_stop (data r ! pos r) then r else scan_attr_name (r\<lparr>pos := pos r + 1\<rparr>))
      else r)"
  by pat_completeness auto
termination
  by (relation "measure (\<lambda>r. rsize r - pos r)") auto

declare scan_attr_name.simps [simp del]

text \<open>The test for a namespace declaration (\<^verbatim>\<open>xmlns\<close> and \<^verbatim>\<open>xmlns:*\<close>) in \<^verbatim>\<open>parse_attrs\<close>.\<close>

definition is_xmlns_attr :: "string \<Rightarrow> nat \<Rightarrow> nat \<Rightarrow> bool" where
  "is_xmlns_attr d name_start nlen =
     (nlen \<ge> 5 \<and> bytes d name_start 5 = ''xmlns''
        \<and> (nlen = 5 \<or> d ! (name_start + 5) = CHR '':''))"

text \<open>
  The second half of an iteration of the loop of \<^verbatim>\<open>parse_attrs\<close>, from the read of the
  quote character on: \<open>r\<close> is the state there, \<open>name_start\<close> and \<open>name_end\<close> delimit the
  attribute name read before.
\<close>

definition attr_value :: "reader \<Rightarrow> nat \<Rightarrow> nat \<Rightarrow> reader flow" where
  "attr_value r name_start name_end =
     (let quote = data r ! pos r in
      if quote \<noteq> CHR 0x22 \<and> quote \<noteq> CHR 0x27 then Again r
      else
        let r5 = r\<lparr>pos := pos r + 1\<rparr>;
            val_start = pos r5
        in case memchr (data r5) (pos r5) quote (rsize r5 - pos r5) of
             None \<Rightarrow> Return (r5\<lparr>pos := rsize r5\<rparr>)
           | Some val_end \<Rightarrow>
               let has_entity =
                     (memchr (data r5) val_start (CHR ''&'') (val_end - val_start) \<noteq> None);
                   r6 = r5\<lparr>pos := val_end + 1\<rparr>;
                   nlen = name_end - name_start
               in if is_xmlns_attr (data r6) name_start nlen then Again r6
                  else if attr_count r6 < MAX_ATTRS then
                    Again (r6\<lparr>attrs := attrs r6 @
                      [\<lparr>attr_name_ptr = name_start, attr_name_len = nlen,
                        val_ptr = val_start, val_len = val_end - val_start,
                        val_has_entity = has_entity\<rparr>]\<rparr>)
                  else Again r6)"

text \<open>One iteration of the \<^verbatim>\<open>while (r->pos < r->size)\<close> loop of \<^verbatim>\<open>parse_attrs\<close>.\<close>

definition attr_step :: "reader \<Rightarrow> reader flow" where
  "attr_step r0 =
     (let r = skip_spaces r0 in
      if at_end r then Return r
      else
        let c = data r ! pos r in
        if c = CHR ''>'' then Return (r\<lparr>pos := pos r + 1\<rparr>)
        else if c = CHR ''/'' then
          (let r1 = r\<lparr>is_empty := True, pos := pos r + 1\<rparr>
           in if pos r1 < rsize r1 \<and> data r1 ! pos r1 = CHR ''>''
              then Return (r1\<lparr>pos := pos r1 + 1\<rparr>)
              else Return r1)
        else
          (let name_start = pos r;
               r2 = scan_attr_name r;
               name_end = pos r2;
               r3 = skip_spaces r2
           in if at_end r3 \<or> data r3 ! pos r3 \<noteq> CHR ''='' then Again r3
              else
                let r4 = skip_spaces (r3\<lparr>pos := pos r3 + 1\<rparr>) in
                if at_end r4 then Return r4
                else attr_value r4 name_start name_end))"

lemma scan_attr_name_frame:
  "scan_attr_name r = r\<lparr>pos := pos (scan_attr_name r)\<rparr> \<and> pos r \<le> pos (scan_attr_name r)
     \<and> (pos r \<le> rsize r \<longrightarrow> pos (scan_attr_name r) \<le> rsize r)
     \<and> (pos r < rsize r \<and> \<not> attr_name_stop (data r ! pos r) \<longrightarrow> pos r < pos (scan_attr_name r))"
proof (induction r rule: scan_attr_name.induct)
  case (1 r)
  show ?case
  proof (cases "pos r < rsize r \<and> \<not> attr_name_stop (data r ! pos r)")
    case True
    then have eq: "scan_attr_name r = scan_attr_name (r\<lparr>pos := pos r + 1\<rparr>)"
      by (simp add: scan_attr_name.simps [of r])
    from True "1.IH" have ih:
      "scan_attr_name (r\<lparr>pos := pos r + 1\<rparr>)
         = r\<lparr>pos := pos r + 1\<rparr>\<lparr>pos := pos (scan_attr_name (r\<lparr>pos := pos r + 1\<rparr>))\<rparr>"
      "pos r + 1 \<le> pos (scan_attr_name (r\<lparr>pos := pos r + 1\<rparr>))"
      "pos (scan_attr_name (r\<lparr>pos := pos r + 1\<rparr>)) \<le> rsize r"
      by simp_all
    show ?thesis
      unfolding eq using ih(2,3) by (subst ih(1)) simp
  next
    case False
    then have "scan_attr_name r = r"
      by (auto simp: scan_attr_name.simps [of r])
    with False show ?thesis by auto
  qed
qed

lemma scan_attr_name_eq: "scan_attr_name r = r\<lparr>pos := pos (scan_attr_name r)\<rparr>"
  using scan_attr_name_frame [of r] by simp

lemmas scan_attr_name_fields [simp] = frame_pos [OF scan_attr_name_eq]

lemma scan_attr_name_ge: "pos r \<le> pos (scan_attr_name r)"
  using scan_attr_name_frame [of r] by simp

lemma scan_attr_name_le: "pos r \<le> rsize r \<Longrightarrow> pos (scan_attr_name r) \<le> rsize r"
  using scan_attr_name_frame [of r] by simp

lemma scan_attr_name_gt:
  "pos r < rsize r \<Longrightarrow> \<not> attr_name_stop (data r ! pos r) \<Longrightarrow> pos r < pos (scan_attr_name r)"
  using scan_attr_name_frame [of r] by simp

text \<open>
  An entry of the attribute table is well-formed for a buffer when its name lies within the
  buffer and did not pass the namespace-declaration test.
\<close>

definition attr_ok :: "string \<Rightarrow> attr_entry \<Rightarrow> bool" where
  "attr_ok d a = (attr_name_ptr a + attr_name_len a \<le> length d
     \<and> \<not> is_xmlns_attr d (attr_name_ptr a) (attr_name_len a))"

text \<open>
  The outcomes of an iteration of the attribute loop: it returns with the cursor moved and
  possibly the empty flag set, or it goes round again with the cursor moved forward and at
  most one well-formed entry appended to a table that was not full.
\<close>

lemma frame_attrs:
  assumes "r' = r\<lparr>pos := p, attrs := as\<rparr>"
  shows "data r' = data r" "depth r' = depth r" "report_depth r' = report_depth r"
    "node_type r' = node_type r" "is_empty r' = is_empty r" "name_ptr r' = name_ptr r"
    "name_len r' = name_len r" "text_ptr r' = text_ptr r" "text_len r' = text_len r"
    "text_has_entity r' = text_has_entity r" "decoded_text r' = decoded_text r"
    "name_cache r' = name_cache r"
  using assms by simp_all

lemma attr_value_outcome:
  assumes "pos r < rsize r" and "s \<le> e" and "e \<le> rsize r"
  shows "case attr_value r s e of
           Return r' \<Rightarrow> r' = r\<lparr>pos := rsize r\<rparr>
         | Again r' \<Rightarrow> pos r \<le> pos r' \<and> pos r' \<le> rsize r
             \<and> (r' = r\<lparr>pos := pos r'\<rparr>
                \<or> (\<exists>x. r' = r\<lparr>pos := pos r', attrs := attrs r @ [x]\<rparr> \<and> attr_ok (data r) x
                      \<and> attr_count r < MAX_ATTRS))"
proof (cases "data r ! pos r \<noteq> CHR 0x22 \<and> data r ! pos r \<noteq> CHR 0x27")
  case True
  then have "attr_value r s e = Again r"
    by (simp add: attr_value_def)
  with assms(1) show ?thesis by simp
next
  case quote: False
  show ?thesis
  proof (cases "memchr (data r) (Suc (pos r)) (data r ! pos r) (rsize r - Suc (pos r))")
    case None
    with quote have "attr_value r s e = Return (r\<lparr>pos := rsize r\<rparr>)"
      by (auto simp: attr_value_def Let_def)
    then show ?thesis by simp
  next
    case (Some v)
    from memchr_upto [OF Some] have v: "pos r \<le> Suc v" "Suc v \<le> rsize r" by simp_all
    show ?thesis
    proof (cases "is_xmlns_attr (data r) s (e - s) \<or> \<not> attr_count r < MAX_ATTRS")
      case True
      with quote Some have "attr_value r s e = Again (r\<lparr>pos := Suc v\<rparr>)"
        by (auto simp: attr_value_def Let_def)
      with v show ?thesis by simp
    next
      case False
      define a where "a = \<lparr>attr_name_ptr = s, attr_name_len = e - s, val_ptr = Suc (pos r),
        val_len = v - Suc (pos r),
        val_has_entity = (memchr (data r) (Suc (pos r)) (CHR ''&'') (v - Suc (pos r)) \<noteq> None)\<rparr>"
      from quote Some False
      have "attr_value r s e = Again (r\<lparr>pos := Suc v, attrs := attrs r @ [a]\<rparr>)"
        by (auto simp: attr_value_def a_def Let_def)
      moreover have "attr_ok (data r) a"
        using False assms(2,3) by (simp add: attr_ok_def a_def)
      ultimately show ?thesis
        using v False by auto
    qed
  qed
qed

lemma attr_step_outcome:
  assumes "pos r < rsize r"
  shows "case attr_step r of
           Return r' \<Rightarrow> r' = r\<lparr>pos := pos r', is_empty := is_empty r'\<rparr> \<and> pos r \<le> pos r'
             \<and> pos r' \<le> rsize r
         | Again r' \<Rightarrow> pos r < pos r' \<and> pos r' \<le> rsize r
             \<and> (r' = r\<lparr>pos := pos r'\<rparr>
                \<or> (\<exists>x. r' = r\<lparr>pos := pos r', attrs := attrs r @ [x]\<rparr> \<and> attr_ok (data r) x
                      \<and> attr_count r < MAX_ATTRS))"
proof -
  define a where "a = pos (skip_spaces r)"
  define b where "b = pos (scan_attr_name (r\<lparr>pos := a\<rparr>))"
  define c where "c = pos (skip_spaces (r\<lparr>pos := b\<rparr>))"
  define d where "d = pos (skip_spaces (r\<lparr>pos := Suc c\<rparr>))"
  have ea: "skip_spaces r = r\<lparr>pos := a\<rparr>"
    unfolding a_def by (rule skip_spaces_eq)
  have eb: "scan_attr_name (r\<lparr>pos := a\<rparr>) = r\<lparr>pos := b\<rparr>"
    unfolding b_def by (rule trans [OF scan_attr_name_eq]) simp
  have ec: "skip_spaces (r\<lparr>pos := b\<rparr>) = r\<lparr>pos := c\<rparr>"
    unfolding c_def by (rule trans [OF skip_spaces_eq]) simp
  have ed: "skip_spaces (r\<lparr>pos := Suc c\<rparr>) = r\<lparr>pos := d\<rparr>"
    unfolding d_def by (rule trans [OF skip_spaces_eq]) simp
  have pa: "pos r \<le> a" "a \<le> rsize r"
    using skip_spaces_ge [of r] skip_spaces_le [of r] assms by (simp_all add: a_def)
  have pb: "a \<le> b" "b \<le> rsize r"
    using scan_attr_name_ge [of "r\<lparr>pos := a\<rparr>"] scan_attr_name_le [of "r\<lparr>pos := a\<rparr>"] pa
    by (simp_all add: b_def)
  have pc: "b \<le> c" "c \<le> rsize r"
    using skip_spaces_ge [of "r\<lparr>pos := b\<rparr>"] skip_spaces_le [of "r\<lparr>pos := b\<rparr>"] pb
    by (simp_all add: c_def)
  have pd: "c < rsize r \<Longrightarrow> c + 1 \<le> d \<and> d \<le> rsize r"
    using skip_spaces_ge [of "r\<lparr>pos := Suc c\<rparr>"] skip_spaces_le [of "r\<lparr>pos := Suc c\<rparr>"]
    by (simp add: d_def)
  have nsp: "a < rsize r \<Longrightarrow> \<not> is_space (data r ! a)"
    using skip_spaces_stop [of r] by (simp add: a_def)
  have prog: "pos r < c"
    if na: "a < rsize r" and c1: "data r ! a \<noteq> CHR ''>''" and c2: "data r ! a \<noteq> CHR ''/''"
      and cc: "rsize r \<le> c \<or> data r ! c \<noteq> CHR ''=''"
  proof (rule ccontr)
    assume "\<not> pos r < c"
    with pa pb pc have e: "c = a" "b = a" by simp_all
    have "attr_name_stop (data r ! a)"
      using scan_attr_name_gt [of "r\<lparr>pos := a\<rparr>"] na e by (auto simp: b_def)
    with nsp [OF na] c1 c2 have "data r ! a = CHR ''=''"
      by (auto simp: attr_name_stop_def is_space_def)
    with cc e na show False by simp
  qed
  have step: "attr_step r =
     (if rsize r \<le> a then Return (r\<lparr>pos := a\<rparr>)
      else if data r ! a = CHR ''>'' then Return (r\<lparr>pos := a + 1\<rparr>)
      else if data r ! a = CHR ''/'' then
        (if a + 1 < rsize r \<and> data r ! (a + 1) = CHR ''>''
         then Return (r\<lparr>is_empty := True, pos := a + 2\<rparr>)
         else Return (r\<lparr>is_empty := True, pos := a + 1\<rparr>))
      else if rsize r \<le> c \<or> data r ! c \<noteq> CHR ''='' then Again (r\<lparr>pos := c\<rparr>)
      else if rsize r \<le> d then Return (r\<lparr>pos := d\<rparr>)
      else attr_value (r\<lparr>pos := d\<rparr>) a b)"
    unfolding attr_step_def Let_def
    by (simp add: ea eb ec ed at_end_def split del: if_split cong: if_cong)
  consider (end_a) "rsize r \<le> a"
    | (gt) "\<not> rsize r \<le> a" "data r ! a = CHR ''>''"
    | (slash) "\<not> rsize r \<le> a" "data r ! a \<noteq> CHR ''>''" "data r ! a = CHR ''/''"
    | (no_eq) "\<not> rsize r \<le> a" "data r ! a \<noteq> CHR ''>''" "data r ! a \<noteq> CHR ''/''"
        "rsize r \<le> c \<or> data r ! c \<noteq> CHR ''=''"
    | (end_d) "\<not> rsize r \<le> a" "data r ! a \<noteq> CHR ''>''" "data r ! a \<noteq> CHR ''/''"
        "\<not> (rsize r \<le> c \<or> data r ! c \<noteq> CHR ''='')" "rsize r \<le> d"
    | (val) "\<not> rsize r \<le> a" "data r ! a \<noteq> CHR ''>''" "data r ! a \<noteq> CHR ''/''"
        "\<not> (rsize r \<le> c \<or> data r ! c \<noteq> CHR ''='')" "\<not> rsize r \<le> d"
    by blast
  then show ?thesis
  proof cases
    case end_a
    then have "attr_step r = Return (r\<lparr>pos := a\<rparr>)" by (simp add: step)
    with pa show ?thesis by simp
  next
    case gt
    then have "attr_step r = Return (r\<lparr>pos := a + 1\<rparr>)" by (simp add: step)
    with pa gt show ?thesis by simp
  next
    case slash
    show ?thesis
    proof (cases "a + 1 < rsize r \<and> data r ! (a + 1) = CHR ''>''")
      case True
      with slash have "attr_step r = Return (r\<lparr>is_empty := True, pos := a + 2\<rparr>)"
        by (simp add: step)
      with pa True show ?thesis by simp
    next
      case False
      with slash have "attr_step r = Return (r\<lparr>is_empty := True, pos := a + 1\<rparr>)"
        by (auto simp: step)
      with pa slash show ?thesis by simp
    qed
  next
    case no_eq
    then have "attr_step r = Again (r\<lparr>pos := c\<rparr>)" by (auto simp: step)
    moreover have "pos r < c" using prog no_eq by simp
    ultimately show ?thesis using pc by simp
  next
    case end_d
    then have "attr_step r = Return (r\<lparr>pos := d\<rparr>)" by (simp add: step)
    moreover from end_d(4) have "c < rsize r" by simp
    ultimately show ?thesis using pd pa pb pc by simp
  next
    case val
    then have st: "attr_step r = attr_value (r\<lparr>pos := d\<rparr>) a b" by (simp add: step)
    from val(4) have "c < rsize r" by simp
    with pd pa pb pc have rd: "pos r < d" by simp
    have "pos (r\<lparr>pos := d\<rparr>) < rsize (r\<lparr>pos := d\<rparr>)" "b \<le> rsize (r\<lparr>pos := d\<rparr>)"
      using val(5) pb by simp_all
    from attr_value_outcome [OF this(1) pb(1) this(2)] rd assms
    show ?thesis unfolding st
      by (cases "attr_value (r\<lparr>pos := d\<rparr>) a b") auto
  qed
qed

lemma attr_step_Again_measure:
  assumes "attr_step r = Again r'" and "pos r < rsize r"
  shows "rsize r' - pos r' < rsize r - pos r"
proof -
  from attr_step_outcome [OF assms(2)] assms(1)
  have p: "pos r < pos r'"
    and "r' = r\<lparr>pos := pos r'\<rparr> \<or> (\<exists>x. r' = r\<lparr>pos := pos r', attrs := attrs r @ [x]\<rparr>)"
    by auto
  then have "data r' = data r"
    by (auto dest: frame_pos(1) frame_attrs(1))
  with p assms(2) show ?thesis by simp
qed

text \<open>The loop of \<^verbatim>\<open>parse_attrs\<close>, and \<^verbatim>\<open>parse_attrs\<close> itself.\<close>

function parse_attrs_loop :: "reader \<Rightarrow> reader" where
  "parse_attrs_loop r =
     (if pos r < rsize r then
        (case attr_step r of
           Return r' \<Rightarrow> r'
         | Again r' \<Rightarrow> parse_attrs_loop r')
      else r)"
  by pat_completeness auto
termination
  by (relation "measure (\<lambda>r. rsize r - pos r)") (simp_all add: attr_step_Again_measure)

declare parse_attrs_loop.simps [simp del]

definition parse_attrs :: "reader \<Rightarrow> reader" where
  "parse_attrs r = parse_attrs_loop (r\<lparr>attrs := [], is_empty := False\<rparr>)"

text \<open>What \<^verbatim>\<open>parse_attrs\<close> changes: the cursor, the empty flag and the attribute table.\<close>

lemma frame_parse_trans:
  assumes "r2 = r1\<lparr>pos := p2, is_empty := e2, attrs := as2\<rparr>"
    and "(\<exists>p1. r1 = r\<lparr>pos := p1\<rparr>) \<or> (\<exists>p1 as1. r1 = r\<lparr>pos := p1, attrs := as1\<rparr>)"
  shows "r2 = r\<lparr>pos := pos r2, is_empty := is_empty r2, attrs := attrs r2\<rparr>"
  using assms by auto

lemma parse_attrs_loop_outcome:
  "pos r \<le> rsize r \<Longrightarrow>
     parse_attrs_loop r = r\<lparr>pos := pos (parse_attrs_loop r),
       is_empty := is_empty (parse_attrs_loop r), attrs := attrs (parse_attrs_loop r)\<rparr>
     \<and> pos r \<le> pos (parse_attrs_loop r) \<and> pos (parse_attrs_loop r) \<le> rsize r
     \<and> (\<forall>x\<in>set (attrs (parse_attrs_loop r)). x \<in> set (attrs r) \<or> attr_ok (data r) x)
     \<and> attr_count (parse_attrs_loop r) \<le> max (attr_count r) MAX_ATTRS"
proof (induction r rule: parse_attrs_loop.induct)
  case (1 r)
  show ?case
  proof (cases "pos r < rsize r")
    case False
    then have "parse_attrs_loop r = r" by (simp add: parse_attrs_loop.simps [of r])
    with "1.prems" show ?thesis by simp
  next
    case True
    note out = attr_step_outcome [OF True]
    show ?thesis
    proof (cases "attr_step r")
      case (Return r')
      with True have eq: "parse_attrs_loop r = r'" by (simp add: parse_attrs_loop.simps [of r])
      from out Return have r': "r' = r\<lparr>pos := pos r', is_empty := is_empty r'\<rparr>"
        "pos r \<le> pos r'" "pos r' \<le> rsize r" by simp_all
      have "attrs r' = attrs r" by (subst r'(1)) simp
      then have "r' = r\<lparr>pos := pos r', is_empty := is_empty r', attrs := attrs r'\<rparr>"
        using r'(1) by simp
      with r'(2,3) \<open>attrs r' = attrs r\<close> show ?thesis unfolding eq by simp
    next
      case (Again r1)
      with True have eq: "parse_attrs_loop r = parse_attrs_loop r1"
        by (simp add: parse_attrs_loop.simps [of r])
      from out Again have p1: "pos r < pos r1" "pos r1 \<le> rsize r"
        and sh: "r1 = r\<lparr>pos := pos r1\<rparr>
          \<or> (\<exists>x. r1 = r\<lparr>pos := pos r1, attrs := attrs r @ [x]\<rparr> \<and> attr_ok (data r) x
                \<and> attr_count r < MAX_ATTRS)"
        by simp_all
      from sh have d1: "data r1 = data r"
        by (auto dest: frame_pos(1) frame_attrs(1))
      from sh have a1: "\<forall>x\<in>set (attrs r1). x \<in> set (attrs r) \<or> attr_ok (data r) x"
        and n1: "attr_count r1 \<le> max (attr_count r) MAX_ATTRS"
      proof -
        from sh consider "attrs r1 = attrs r"
          | x where "attrs r1 = attrs r @ [x]" "attr_ok (data r) x" "attr_count r < MAX_ATTRS"
          by (auto dest: frame_pos(12) arg_cong [where f = attrs])
        then show "\<forall>x\<in>set (attrs r1). x \<in> set (attrs r) \<or> attr_ok (data r) x"
          and "attr_count r1 \<le> max (attr_count r) MAX_ATTRS"
          by (cases; auto)+
      qed
      from p1 d1 have "pos r1 \<le> rsize r1" by simp
      from "1.IH" [OF True Again this] have ih:
        "parse_attrs_loop r1 = r1\<lparr>pos := pos (parse_attrs_loop r1),
           is_empty := is_empty (parse_attrs_loop r1), attrs := attrs (parse_attrs_loop r1)\<rparr>"
        "pos r1 \<le> pos (parse_attrs_loop r1)" "pos (parse_attrs_loop r1) \<le> rsize r1"
        "\<forall>x\<in>set (attrs (parse_attrs_loop r1)). x \<in> set (attrs r1) \<or> attr_ok (data r1) x"
        "attr_count (parse_attrs_loop r1) \<le> max (attr_count r1) MAX_ATTRS"
        by simp_all
      have "parse_attrs_loop r1 = r\<lparr>pos := pos (parse_attrs_loop r1),
           is_empty := is_empty (parse_attrs_loop r1), attrs := attrs (parse_attrs_loop r1)\<rparr>"
        using sh by (intro frame_parse_trans [OF ih(1)]) blast
      moreover from ih(4) a1 d1
      have "\<forall>x\<in>set (attrs (parse_attrs_loop r1)). x \<in> set (attrs r) \<or> attr_ok (data r) x"
        by auto
      ultimately show ?thesis
        unfolding eq using ih(2,3,5) p1 d1 n1 by simp
    qed
  qed
qed

lemma parse_attrs_outcome:
  assumes "pos r \<le> rsize r"
  shows "parse_attrs r = r\<lparr>pos := pos (parse_attrs r), is_empty := is_empty (parse_attrs r),
           attrs := attrs (parse_attrs r)\<rparr>
     \<and> pos r \<le> pos (parse_attrs r) \<and> pos (parse_attrs r) \<le> rsize r
     \<and> (\<forall>x\<in>set (attrs (parse_attrs r)). attr_ok (data r) x)
     \<and> attr_count (parse_attrs r) \<le> MAX_ATTRS"
proof -
  define r0 where "r0 = r\<lparr>attrs := [], is_empty := False\<rparr>"
  have "pos r0 \<le> rsize r0" using assms by (simp add: r0_def)
  from parse_attrs_loop_outcome [OF this]
  have o: "parse_attrs_loop r0 = r0\<lparr>pos := pos (parse_attrs_loop r0),
       is_empty := is_empty (parse_attrs_loop r0), attrs := attrs (parse_attrs_loop r0)\<rparr>"
    "pos r0 \<le> pos (parse_attrs_loop r0)" "pos (parse_attrs_loop r0) \<le> rsize r0"
    "\<forall>x\<in>set (attrs (parse_attrs_loop r0)). x \<in> set (attrs r0) \<or> attr_ok (data r0) x"
    "attr_count (parse_attrs_loop r0) \<le> max (attr_count r0) MAX_ATTRS"
    by simp_all
  have "parse_attrs_loop r0 = r\<lparr>pos := pos (parse_attrs_loop r0),
       is_empty := is_empty (parse_attrs_loop r0), attrs := attrs (parse_attrs_loop r0)\<rparr>"
    by (rule trans [OF o(1)]) (simp add: r0_def)
  with o(2-5) show ?thesis
    unfolding parse_attrs_def r0_def [symmetric] by (simp add: r0_def)
qed

section \<open>The main scanner\<close>

text \<open>The skippers move the cursor forward within the buffer and change nothing else.\<close>

lemma skip_comment_frame:
  "pos r \<le> rsize r \<Longrightarrow>
     skip_comment r = r\<lparr>pos := pos (skip_comment r)\<rparr> \<and> pos r \<le> pos (skip_comment r)
       \<and> pos (skip_comment r) \<le> rsize r"
proof (induction r rule: skip_comment.induct)
  case (1 r)
  show ?case
  proof (cases "pos r + 2 < rsize r")
    case False
    with "1.prems" show ?thesis by (simp add: skip_comment.simps [of r])
  next
    case True
    show ?thesis
    proof (cases "memchr (data r) (pos r) (CHR ''-'') (rsize r - pos r - 1)")
      case None
      with True "1.prems" show ?thesis by (simp add: skip_comment.simps [of r])
    next
      case (Some p)
      then have p: "pos r \<le> p" "p < rsize r"
        using memchr_range [of "data r" "pos r" "CHR ''-''" "rsize r - pos r - 1" p "rsize r"] True
        by simp_all
      show ?thesis
      proof (cases "p + 2 < rsize r \<and> data r ! p = CHR ''-'' \<and> data r ! (p + 1) = CHR ''-''
                \<and> data r ! (p + 2) = CHR ''>''")
        case True
        with \<open>pos r + 2 < rsize r\<close> Some p show ?thesis
          by (simp add: skip_comment.simps [of r])
      next
        case False
        with \<open>pos r + 2 < rsize r\<close> Some
        have eq: "skip_comment r = skip_comment (r\<lparr>pos := p + 1\<rparr>)"
          by (subst skip_comment.simps) auto
        have "pos (r\<lparr>pos := p + 1\<rparr>) \<le> rsize (r\<lparr>pos := p + 1\<rparr>)" using p by simp
        from "1.IH" [OF \<open>pos r + 2 < rsize r\<close> Some False this]
        have ih: "skip_comment (r\<lparr>pos := p + 1\<rparr>)
            = r\<lparr>pos := p + 1\<rparr>\<lparr>pos := pos (skip_comment (r\<lparr>pos := p + 1\<rparr>))\<rparr>"
          "p + 1 \<le> pos (skip_comment (r\<lparr>pos := p + 1\<rparr>))"
          "pos (skip_comment (r\<lparr>pos := p + 1\<rparr>)) \<le> rsize r"
          by simp_all
        show ?thesis
          unfolding eq using ih(2,3) p by (subst ih(1)) simp
      qed
    qed
  qed
qed

lemma skip_pi_frame:
  "pos r \<le> rsize r \<Longrightarrow>
     skip_pi r = r\<lparr>pos := pos (skip_pi r)\<rparr> \<and> pos r \<le> pos (skip_pi r)
       \<and> pos (skip_pi r) \<le> rsize r"
proof (induction r rule: skip_pi.induct)
  case (1 r)
  show ?case
  proof (cases "pos r + 1 < rsize r")
    case False
    with "1.prems" show ?thesis by (simp add: skip_pi.simps [of r])
  next
    case True
    show ?thesis
    proof (cases "memchr (data r) (pos r) (CHR ''?'') (rsize r - pos r - 1)")
      case None
      with True "1.prems" show ?thesis by (simp add: skip_pi.simps [of r])
    next
      case (Some p)
      then have p: "pos r \<le> p" "p + 1 < rsize r"
        using memchr_Some [of "data r" "pos r" "CHR ''?''" "rsize r - pos r - 1" p] True
        by auto
      show ?thesis
      proof (cases "data r ! (p + 1) = CHR ''>''")
        case True
        with \<open>pos r + 1 < rsize r\<close> Some p show ?thesis
          by (simp add: skip_pi.simps [of r])
      next
        case False
        with \<open>pos r + 1 < rsize r\<close> Some
        have eq: "skip_pi r = skip_pi (r\<lparr>pos := p + 1\<rparr>)"
          by (subst skip_pi.simps) auto
        have "pos (r\<lparr>pos := p + 1\<rparr>) \<le> rsize (r\<lparr>pos := p + 1\<rparr>)" using p by simp
        from "1.IH" [OF \<open>pos r + 1 < rsize r\<close> Some False this]
        have ih: "skip_pi (r\<lparr>pos := p + 1\<rparr>)
            = r\<lparr>pos := p + 1\<rparr>\<lparr>pos := pos (skip_pi (r\<lparr>pos := p + 1\<rparr>))\<rparr>"
          "p + 1 \<le> pos (skip_pi (r\<lparr>pos := p + 1\<rparr>))"
          "pos (skip_pi (r\<lparr>pos := p + 1\<rparr>)) \<le> rsize r"
          by simp_all
        show ?thesis
          unfolding eq using ih(2,3) p by (subst ih(1)) simp
      qed
    qed
  qed
qed

lemma skip_cdata_frame:
  "pos r \<le> rsize r \<Longrightarrow>
     skip_cdata r = r\<lparr>pos := pos (skip_cdata r)\<rparr> \<and> pos r \<le> pos (skip_cdata r)
       \<and> pos (skip_cdata r) \<le> rsize r"
proof (induction r rule: skip_cdata.induct)
  case (1 r)
  show ?case
  proof (cases "pos r + 2 < rsize r")
    case False
    with "1.prems" show ?thesis by (simp add: skip_cdata.simps [of r])
  next
    case True
    show ?thesis
    proof (cases "memchr (data r) (pos r) (CHR '']'') (rsize r - pos r - 2)")
      case None
      with True "1.prems" show ?thesis by (simp add: skip_cdata.simps [of r])
    next
      case (Some p)
      then have p: "pos r \<le> p" "p + 2 < rsize r"
        using memchr_Some [of "data r" "pos r" "CHR '']''" "rsize r - pos r - 2" p] True
        by auto
      show ?thesis
      proof (cases "data r ! (p + 1) = CHR '']'' \<and> data r ! (p + 2) = CHR ''>''")
        case True
        with \<open>pos r + 2 < rsize r\<close> Some p show ?thesis
          by (simp add: skip_cdata.simps [of r])
      next
        case False
        with \<open>pos r + 2 < rsize r\<close> Some
        have eq: "skip_cdata r = skip_cdata (r\<lparr>pos := p + 1\<rparr>)"
          by (subst skip_cdata.simps) auto
        have "pos (r\<lparr>pos := p + 1\<rparr>) \<le> rsize (r\<lparr>pos := p + 1\<rparr>)" using p by simp
        from "1.IH" [OF \<open>pos r + 2 < rsize r\<close> Some False this]
        have ih: "skip_cdata (r\<lparr>pos := p + 1\<rparr>)
            = r\<lparr>pos := p + 1\<rparr>\<lparr>pos := pos (skip_cdata (r\<lparr>pos := p + 1\<rparr>))\<rparr>"
          "p + 1 \<le> pos (skip_cdata (r\<lparr>pos := p + 1\<rparr>))"
          "pos (skip_cdata (r\<lparr>pos := p + 1\<rparr>)) \<le> rsize r"
          by simp_all
        show ?thesis
          unfolding eq using ih(2,3) p by (subst ih(1)) simp
      qed
    qed
  qed
qed


lemma skip_doctype_loop_frame:
  "pos r \<le> rsize r \<Longrightarrow>
     skip_doctype_loop r b = r\<lparr>pos := pos (skip_doctype_loop r b)\<rparr>
       \<and> pos r \<le> pos (skip_doctype_loop r b) \<and> pos (skip_doctype_loop r b) \<le> rsize r"
proof (induction r b rule: skip_doctype_loop.induct)
  case (1 r b)
  show ?case
  proof (cases "pos r < rsize r")
    case False
    with "1.prems" show ?thesis by (simp add: skip_doctype_loop.simps [of r b])
  next
    case True
    define r1 where "r1 = r\<lparr>pos := pos r + 1\<rparr>"
    have r1: "pos r1 \<le> rsize r1" "data r1 = data r" "pos r1 = pos r + 1"
      using True by (simp_all add: r1_def)
    have step: "skip_doctype_loop r1 b' = r1\<lparr>pos := pos (skip_doctype_loop r1 b')\<rparr>
         \<and> pos r1 \<le> pos (skip_doctype_loop r1 b') \<and> pos (skip_doctype_loop r1 b') \<le> rsize r1
       \<Longrightarrow> skip_doctype_loop r1 b' = r\<lparr>pos := pos (skip_doctype_loop r1 b')\<rparr>
         \<and> pos r \<le> pos (skip_doctype_loop r1 b') \<and> pos (skip_doctype_loop r1 b') \<le> rsize r" for b'
      using r1 frame_pos_trans [OF r1_def, of "skip_doctype_loop r1 b'"] by auto
    consider (bopen) "data r ! pos r = CHR ''[''"
      | (bclose) "data r ! pos r = CHR '']''"
      | (hit) "data r ! pos r = CHR ''>''" "b = 0"
      | (other) "data r ! pos r \<noteq> CHR ''[''" "data r ! pos r \<noteq> CHR '']''"
          "\<not> (data r ! pos r = CHR ''>'' \<and> b = 0)"
      by blast
    then show ?thesis
    proof cases
      case bopen
      then have eq: "skip_doctype_loop r b = skip_doctype_loop r1 (c_int (b + 1))"
        using True by (subst skip_doctype_loop.simps) (simp add: r1_def Let_def)
      show ?thesis unfolding eq
        using "1.IH"(1) [OF True refl r1_def bopen] r1
        by (intro step) simp
    next
      case bclose
      then have eq: "skip_doctype_loop r b = skip_doctype_loop r1 (c_int (b - 1))"
        using True by (subst skip_doctype_loop.simps) (simp add: r1_def Let_def)
      have ne: "data r ! pos r \<noteq> CHR ''[''" using bclose by simp
      show ?thesis unfolding eq
        using "1.IH"(2) [OF True refl r1_def ne bclose] r1
        by (intro step) simp
    next
      case hit
      then have eq: "skip_doctype_loop r b = r1"
        using True by (subst skip_doctype_loop.simps) (simp add: r1_def Let_def)
      show ?thesis unfolding eq using True by (simp add: r1_def)
    next
      case other
      then have eq: "skip_doctype_loop r b = skip_doctype_loop r1 b"
        using True by (subst skip_doctype_loop.simps) (auto simp: r1_def Let_def)
      show ?thesis unfolding eq
        using "1.IH"(3) [OF True refl r1_def other] r1
        by (intro step) simp
    qed
  qed
qed

text \<open>The element-name scan of the start-element branch.\<close>

definition elem_name_stop :: "char \<Rightarrow> bool" where
  "elem_name_stop c = (c = CHR '' '' \<or> c = CHR 0x09 \<or> c = CHR 0x0A \<or> c = CHR 0x0D
     \<or> c = CHR ''>'' \<or> c = CHR ''/'')"

function scan_elem_name :: "reader \<Rightarrow> reader" where
  "scan_elem_name r =
     (if pos r < rsize r then
        (if elem_name_stop (data r ! pos r) then r else scan_elem_name (r\<lparr>pos := pos r + 1\<rparr>))
      else r)"
  by pat_completeness auto
termination
  by (relation "measure (\<lambda>r. rsize r - pos r)") auto

declare scan_elem_name.simps [simp del]

text \<open>
  The namespace-prefix strip, written out three times in \<^verbatim>\<open>reader_read_internal\<close> (end tag,
  start tag, peeked closing tag): from the name region \<^verbatim>\<open>[nptr, nptr+nlen)\<close> to the region
  after its first colon.
\<close>

definition strip_prefix :: "string \<Rightarrow> nat \<Rightarrow> nat \<Rightarrow> nat \<times> nat" where
  "strip_prefix d nptr nlen =
     (case memchr d nptr (CHR '':'') nlen of
        None \<Rightarrow> (nptr, nlen)
      | Some colon \<Rightarrow> (let prefix_len = colon - nptr + 1 in (nptr + prefix_len, nlen - prefix_len)))"

text \<open>The trailing-whitespace trim of the two closing-tag paths: the new length.\<close>

fun trim_trailing :: "string \<Rightarrow> nat \<Rightarrow> nat \<Rightarrow> nat" where
  "trim_trailing d nptr 0 = 0"
| "trim_trailing d nptr (Suc n) =
     (if uchar (d ! (nptr + n)) \<le> uchar (CHR '' '') then trim_trailing d nptr n else Suc n)"

text \<open>The end-element branch, entered with the cursor after \<^verbatim>\<open></\<close>.\<close>

definition read_end_element :: "reader \<Rightarrow> bool \<times> reader" where
  "read_end_element r =
     (let name_start = pos r in
      case memchr (data r) (pos r) (CHR ''>'') (rsize r - pos r) of
        None \<Rightarrow> (False, r\<lparr>pos := rsize r\<rparr>)
      | Some gt \<Rightarrow>
          (let r1 = r\<lparr>pos := gt + 1\<rparr>;
               (nptr, raw_len) = strip_prefix (data r1) name_start (gt - name_start);
               raw_len' = trim_trailing (data r1) nptr raw_len;
               r2 = r1\<lparr>name_ptr := Some nptr, name_len := raw_len',
                       node_type := TYPE_END_ELEMENT, is_empty := False\<rparr>;
               r3 = (if depth r2 > 0 then r2\<lparr>depth := depth r2 - 1\<rparr> else r2)
           in (True, r3\<lparr>report_depth := depth r3\<rparr>)))"

text \<open>
  The self-closing collapse of the start-element branch, entered when \<^verbatim>\<open>is_empty\<close> is not
  set: \<open>nptr\<close> and \<open>nlen\<close> are the local name of the start tag.
\<close>

definition collapse_peek :: "reader \<Rightarrow> nat \<Rightarrow> nat \<Rightarrow> reader" where
  "collapse_peek r nptr nlen =
     (let saved = pos r in
      if pos r + 1 < rsize r \<and> data r ! pos r = CHR ''<'' \<and> data r ! (pos r + 1) = CHR ''/''
      then
        (let peek = pos r + 2;
             remaining = rsize r - peek
         in case memchr (data r) peek (CHR ''>'') remaining of
              Some gt \<Rightarrow>
                (let (close_nptr, close_name_len) = strip_prefix (data r) peek (gt - peek);
                     close_name_len' = trim_trailing (data r) close_nptr close_name_len
                 in if close_name_len' = nlen \<and> bytes (data r) close_nptr nlen = bytes (data r) nptr nlen
                    then r\<lparr>is_empty := True, pos := gt + 1\<rparr>
                    else r\<lparr>pos := saved\<rparr>)
            | None \<Rightarrow> r\<lparr>pos := saved\<rparr>)
      else r)"

text \<open>The start-element branch, entered with the cursor after \<^verbatim>\<open><\<close>.\<close>

definition read_start_element :: "reader \<Rightarrow> reader" where
  "read_start_element r =
     (let name_start = pos r;
          r1 = scan_elem_name r;
          name_end = pos r1;
          (nptr, nlen) = strip_prefix (data r1) name_start (name_end - name_start);
          r2 = parse_attrs (r1\<lparr>name_ptr := Some nptr, name_len := nlen, node_type := TYPE_ELEMENT\<rparr>);
          r3 = (if \<not> is_empty r2 then collapse_peek r2 nptr nlen else r2);
          r4 = r3\<lparr>report_depth := depth r3\<rparr>
      in if \<not> is_empty r4 then r4\<lparr>depth := c_int (depth r4 + 1)\<rparr> else r4)"

text \<open>The text branch, entered with the cursor on a byte other than \<^verbatim>\<open><\<close>.\<close>

definition read_text :: "reader \<Rightarrow> (bool \<times> reader) flow" where
  "read_text r =
     (let text_start = pos r;
          text_end = (case memchr (data r) (pos r) (CHR ''<'') (rsize r - pos r) of
                        Some lt \<Rightarrow> lt | None \<Rightarrow> rsize r);
          r1 = r\<lparr>pos := text_end\<rparr>;
          tlen = text_end - text_start
      in if is_blank (data r1) text_start tlen then Again r1
         else Return (True,
           r1\<lparr>node_type := TYPE_TEXT, report_depth := depth r1, text_ptr := Some text_start,
              text_len := tlen,
              text_has_entity := (memchr (data r1) text_start (CHR ''&'') tlen \<noteq> None),
              is_empty := False, name_ptr := None, name_len := 0\<rparr>))"

text \<open>One pass from the label \<^verbatim>\<open>again\<close> of \<^verbatim>\<open>reader_read_internal\<close>.\<close>

definition read_step :: "reader \<Rightarrow> (bool \<times> reader) flow" where
  "read_step r =
     (if at_end r then Return (False, r)
      else if data r ! pos r = CHR ''<'' then
        (let r1 = r\<lparr>pos := pos r + 1\<rparr> in
         if at_end r1 then Return (False, r1)
         else
           let c = data r1 ! pos r1 in
           if c = CHR ''/'' then Return (read_end_element (r1\<lparr>pos := pos r1 + 1\<rparr>))
           else if c = CHR ''!'' \<and> pos r1 + 2 < rsize r1 \<and> data r1 ! (pos r1 + 1) = CHR ''-''
                   \<and> data r1 ! (pos r1 + 2) = CHR ''-''
             then Again (skip_comment (r1\<lparr>pos := pos r1 + 3\<rparr>))
           else if c = CHR ''!'' \<and> pos r1 + 7 < rsize r1
                   \<and> bytes (data r1) (pos r1) 8 = ''![CDATA[''
             then Again (skip_cdata (r1\<lparr>pos := pos r1 + 8\<rparr>))
           else if c = CHR ''!'' \<and> pos r1 + 7 < rsize r1
                   \<and> bytes (data r1) (pos r1 + 1) 7 = ''DOCTYPE''
             then Again (skip_doctype (r1\<lparr>pos := pos r1 + 8\<rparr>))
           else if c = CHR ''?'' then Again (skip_pi (r1\<lparr>pos := pos r1 + 1\<rparr>))
           else Return (True, read_start_element r1))
      else read_text r)"

lemma skip_doctype_frame:
  "pos r \<le> rsize r \<Longrightarrow>
     skip_doctype r = r\<lparr>pos := pos (skip_doctype r)\<rparr> \<and> pos r \<le> pos (skip_doctype r)
       \<and> pos (skip_doctype r) \<le> rsize r"
  unfolding skip_doctype_def by (rule skip_doctype_loop_frame)

text \<open>Going round the main loop again only moves the cursor, and moves it forward.\<close>

lemma frame_pos_step:
  "s = x\<lparr>pos := p\<rparr> \<and> pos x \<le> p \<and> p \<le> rsize x \<Longrightarrow> x = r\<lparr>pos := q\<rparr> \<Longrightarrow> pos r < q \<Longrightarrow>
     s = r\<lparr>pos := pos s\<rparr> \<and> pos r < pos s \<and> pos s \<le> rsize r"
  by simp

lemma read_text_Again:
  assumes "read_text r = Again r'" and "pos r < rsize r" and "data r ! pos r \<noteq> CHR ''<''"
  shows "r' = r\<lparr>pos := pos r'\<rparr> \<and> pos r < pos r' \<and> pos r' \<le> rsize r"
proof -
  define text_end where "text_end = (case memchr (data r) (pos r) (CHR ''<'') (rsize r - pos r) of
                        Some lt \<Rightarrow> lt | None \<Rightarrow> rsize r)"
  have te: "pos r < text_end \<and> text_end \<le> rsize r"
  proof (cases "memchr (data r) (pos r) (CHR ''<'') (rsize r - pos r)")
    case None
    with assms(2) show ?thesis by (simp add: text_end_def)
  next
    case (Some lt)
    from memchr_Some [OF Some] assms(2) have "pos r \<le> lt" "lt < rsize r" "data r ! lt = CHR ''<''"
      by simp_all
    with assms(3) have "pos r < lt" by (cases "lt = pos r") auto
    with \<open>lt < rsize r\<close> Some show ?thesis by (simp add: text_end_def)
  qed
  from assms(1) have "r' = r\<lparr>pos := text_end\<rparr>"
    unfolding read_text_def Let_def text_end_def [symmetric] by (simp split: if_splits)
  with te show ?thesis by simp
qed

lemma read_step_Again:
  assumes "read_step r = Again r'"
  shows "r' = r\<lparr>pos := pos r'\<rparr> \<and> pos r < pos r' \<and> pos r' \<le> rsize r"
proof -
  from assms have lt: "pos r < rsize r"
    by (auto simp: read_step_def at_end_def split: if_splits)
  show ?thesis
  proof (cases "data r ! pos r = CHR ''<''")
    case False
    with assms lt have "read_text r = Again r'"
      by (simp add: read_step_def at_end_def)
    from read_text_Again [OF this lt False] show ?thesis .
  next
    case True
    define r1 where "r1 = r\<lparr>pos := pos r + 1\<rparr>"
    have d1: "data r1 = data r" "pos r1 = pos r + 1" by (simp_all add: r1_def)
    from assms True lt have cases:
      "(pos r1 + 2 < rsize r1 \<and> r' = skip_comment (r1\<lparr>pos := pos r1 + 3\<rparr>))
       \<or> (pos r1 + 7 < rsize r1 \<and> r' = skip_cdata (r1\<lparr>pos := pos r1 + 8\<rparr>))
       \<or> (pos r1 + 7 < rsize r1 \<and> r' = skip_doctype (r1\<lparr>pos := pos r1 + 8\<rparr>))
       \<or> (pos r1 < rsize r1 \<and> r' = skip_pi (r1\<lparr>pos := pos r1 + 1\<rparr>))"
      unfolding read_step_def Let_def r1_def [symmetric]
      by (simp add: at_end_def split: if_splits)
    then consider (com) "pos r1 + 2 < rsize r1" "r' = skip_comment (r1\<lparr>pos := pos r1 + 3\<rparr>)"
      | (cd) "pos r1 + 7 < rsize r1" "r' = skip_cdata (r1\<lparr>pos := pos r1 + 8\<rparr>)"
      | (dt) "pos r1 + 7 < rsize r1" "r' = skip_doctype (r1\<lparr>pos := pos r1 + 8\<rparr>)"
      | (pi) "pos r1 < rsize r1" "r' = skip_pi (r1\<lparr>pos := pos r1 + 1\<rparr>)"
      by blast
    then show ?thesis
    proof cases
      case com
      have e: "r1\<lparr>pos := pos r1 + 3\<rparr> = r\<lparr>pos := pos r + 4\<rparr>" by (simp add: r1_def)
      have "pos (r\<lparr>pos := pos r + 4\<rparr>) \<le> rsize (r\<lparr>pos := pos r + 4\<rparr>)" using com(1) d1 by simp
      then show ?thesis
        unfolding com(2) e by (rule frame_pos_step [OF skip_comment_frame refl]) simp
    next
      case cd
      have e: "r1\<lparr>pos := pos r1 + 8\<rparr> = r\<lparr>pos := pos r + 9\<rparr>" by (simp add: r1_def)
      have "pos (r\<lparr>pos := pos r + 9\<rparr>) \<le> rsize (r\<lparr>pos := pos r + 9\<rparr>)" using cd(1) d1 by simp
      then show ?thesis
        unfolding cd(2) e by (rule frame_pos_step [OF skip_cdata_frame refl]) simp
    next
      case dt
      have e: "r1\<lparr>pos := pos r1 + 8\<rparr> = r\<lparr>pos := pos r + 9\<rparr>" by (simp add: r1_def)
      have "pos (r\<lparr>pos := pos r + 9\<rparr>) \<le> rsize (r\<lparr>pos := pos r + 9\<rparr>)" using dt(1) d1 by simp
      then show ?thesis
        unfolding dt(2) e by (rule frame_pos_step [OF skip_doctype_frame refl]) simp
    next
      case pi
      have e: "r1\<lparr>pos := pos r1 + 1\<rparr> = r\<lparr>pos := pos r + 2\<rparr>" by (simp add: r1_def)
      have "pos (r\<lparr>pos := pos r + 2\<rparr>) \<le> rsize (r\<lparr>pos := pos r + 2\<rparr>)" using pi(1) d1 by simp
      then show ?thesis
        unfolding pi(2) e by (rule frame_pos_step [OF skip_pi_frame refl]) simp
    qed
  qed
qed

text \<open>
  \<^verbatim>\<open>reader_read_internal\<close>: the loop through the label \<^verbatim>\<open>again\<close>, and the function itself,
  which first resets the per-node state.  The result is the returned flag with the state.
\<close>

function read_loop :: "reader \<Rightarrow> bool \<times> reader" where
  "read_loop r =
     (case read_step r of
        Return res \<Rightarrow> res
      | Again r' \<Rightarrow> read_loop r')"
  by pat_completeness auto
termination
proof (relation "measure (\<lambda>r. rsize r - pos r)")
  show "wf (measure (\<lambda>r. rsize r - pos r))" by simp
next
  fix r r'
  assume a: "read_step r = Again r'"
  from read_step_Again [OF a] have "data r' = data (r\<lparr>pos := pos r'\<rparr>)"
    and "pos r < pos r'" and "pos r' \<le> rsize r" by simp_all
  then show "(r', r) \<in> measure (\<lambda>r. rsize r - pos r)" by simp
qed

declare read_loop.simps [simp del]

definition reader_read_internal :: "reader \<Rightarrow> bool \<times> reader" where
  "reader_read_internal r =
     read_loop (r\<lparr>decoded_text := Qnil, text_ptr := None, text_len := 0,
                  text_has_entity := False, attrs := []\<rparr>)"

section \<open>The Ruby methods\<close>

text \<open>
  \<^verbatim>\<open>reader_alloc\<close> followed by \<^verbatim>\<open>reader_initialize\<close> on a source with the bytes \<open>d\<close>: the
  zeroed struct with \<^verbatim>\<open>decoded_text\<close> and every \<^verbatim>\<open>rb_str\<close> set to \<^verbatim>\<open>Qnil\<close>.
\<close>

definition reader_new :: "string \<Rightarrow> reader" where
  "reader_new d =
     \<lparr>data = d, pos = 0, depth = 0, report_depth = 0, node_type = 0, is_empty = False,
      name_ptr = None, name_len = 0, text_ptr = None, text_len = 0, text_has_entity = False,
      decoded_text = Qnil, attrs = [],
      name_cache = (\<lambda>slot. \<lparr>ptr = None, len = 0, rb_str = Qnil\<rparr>)\<rparr>"

definition reader_read :: "reader \<Rightarrow> bool \<times> reader" where
  "reader_read r = reader_read_internal r"

definition reader_name :: "rb_heap \<Rightarrow> reader \<Rightarrow> rb_value \<times> rb_heap \<times> reader" where
  "reader_name h r =
     (case name_ptr r of
        None \<Rightarrow> (Qnil, h, r)
      | Some p \<Rightarrow>
          if name_len r = 0 then (Qnil, h, r)
          else intern_name h r (bytes (data r) p (name_len r)))"

definition reader_node_type :: "reader \<Rightarrow> int" where
  "reader_node_type r = node_type r"

definition reader_depth :: "reader \<Rightarrow> int" where
  "reader_depth r = report_depth r"

definition reader_value :: "rb_heap \<Rightarrow> reader \<Rightarrow> rb_value \<times> rb_heap \<times> reader" where
  "reader_value h r =
     (case text_ptr r of
        None \<Rightarrow> (Qnil, h, r)
      | Some p \<Rightarrow>
          if text_len r = 0 then (Qnil, h, r)
          else if text_has_entity r then
            (if decoded_text r = Qnil then
               (let (v, h') = rb_enc_str_new h (decode_entities (bytes (data r) p (text_len r)))
                in (v, h', r\<lparr>decoded_text := v\<rparr>))
             else (decoded_text r, h, r))
          else (let (v, h') = rb_enc_str_new h (bytes (data r) p (text_len r)) in (v, h', r)))"

definition make_attr_value :: "rb_heap \<Rightarrow> reader \<Rightarrow> attr_entry \<Rightarrow> rb_value \<times> rb_heap" where
  "make_attr_value h r a =
     (if val_has_entity a
      then rb_enc_str_new h (decode_entities (bytes (data r) (val_ptr a) (val_len a)))
      else rb_enc_str_new h (bytes (data r) (val_ptr a) (val_len a)))"

text \<open>\<^verbatim>\<open>reader_attribute\<close>: the scan over \<^verbatim>\<open>attrs[0..attr_count)\<close> for the name \<open>needle\<close>.\<close>

fun attribute_scan :: "rb_heap \<Rightarrow> reader \<Rightarrow> string \<Rightarrow> attr_entry list \<Rightarrow> rb_value \<times> rb_heap" where
  "attribute_scan h r needle [] = (Qnil, h)"
| "attribute_scan h r needle (a # as) =
     (if attr_name_len a = length needle
         \<and> bytes (data r) (attr_name_ptr a) (length needle) = needle
      then make_attr_value h r a
      else attribute_scan h r needle as)"

definition reader_attribute :: "rb_heap \<Rightarrow> reader \<Rightarrow> string \<Rightarrow> rb_value \<times> rb_heap" where
  "reader_attribute h r needle = attribute_scan h r needle (attrs r)"

definition reader_empty_element_p :: "reader \<Rightarrow> bool" where
  "reader_empty_element_p r = is_empty r"

text \<open>The bytes of a returned \<^verbatim>\<open>VALUE\<close>: nothing for \<^verbatim>\<open>Qnil\<close>, the contents of a String.\<close>

definition rb_string :: "rb_heap \<Rightarrow> rb_value \<Rightarrow> string option" where
  "rb_string h v = (case v of Qnil \<Rightarrow> None | Str a \<Rightarrow> Some (h ! a))"

text \<open>
  What a caller sees of the current node through \<^verbatim>\<open>node_type\<close>, \<^verbatim>\<open>name\<close>, \<^verbatim>\<open>depth\<close>,
  \<^verbatim>\<open>value\<close> and \<^verbatim>\<open>empty_element?\<close>, called in this order.
\<close>

type_synonym node = "int \<times> string option \<times> int \<times> string option \<times> bool"

definition visit :: "rb_heap \<Rightarrow> reader \<Rightarrow> node \<times> rb_heap \<times> reader" where
  "visit h r =
     (let t = reader_node_type r;
          (n, h1, r1) = reader_name h r;
          d = reader_depth r1;
          (v, h2, r2) = reader_value h1 r1;
          e = reader_empty_element_p r2
      in ((t, rb_string h1 n, d, rb_string h2 v, e), h2, r2))"

text \<open>The results of \<open>n\<close> successive calls of \<^verbatim>\<open>read\<close>, each followed by a visit of the node.\<close>

fun reads :: "nat \<Rightarrow> rb_heap \<Rightarrow> reader \<Rightarrow> (bool \<times> node) list" where
  "reads 0 h r = []"
| "reads (Suc n) h r =
     (let (b, r1) = reader_read r;
          (v, h2, r2) = visit h r1
      in (b, v) # reads n h2 r2)"

text \<open>The state after \<open>n\<close> successive calls of \<^verbatim>\<open>read\<close>.\<close>

fun read_seq :: "nat \<Rightarrow> reader \<Rightarrow> reader" where
  "read_seq 0 r = r"
| "read_seq (Suc n) r = read_seq n (snd (reader_read r))"

text \<open>The bytes of the name of an attribute entry.\<close>

definition attr_name :: "string \<Rightarrow> attr_entry \<Rightarrow> string" where
  "attr_name d a = bytes d (attr_name_ptr a) (attr_name_len a)"

text \<open>
  The name cache is consistent with the object space when every occupied slot points into
  the buffer of an allocated string, holds that string as \<^verbatim>\<open>rb_str\<close>, and holds its length.
  \<^verbatim>\<open>intern_name\<close> fills slots in this way only, and strings are frozen and never freed
  while the reader lives.
\<close>

definition slot_ok :: "rb_heap \<Rightarrow> cache_entry \<Rightarrow> bool" where
  "slot_ok h e = (case ptr e of None \<Rightarrow> True
     | Some a \<Rightarrow> a < length h \<and> rb_str e = Str a \<and> len e = length (h ! a))"

definition cache_ok :: "rb_heap \<Rightarrow> reader \<Rightarrow> bool" where
  "cache_ok h r = (\<forall>slot. slot_ok h (name_cache r slot))"

text \<open>
  The namespace-prefix rule and the trim in terms of byte strings: the part of a name after
  its first colon, and a string without its trailing bytes up to the space character.
\<close>

definition local_part :: "string \<Rightarrow> string" where
  "local_part s = (if CHR '':'' \<in> set s then tl (dropWhile (\<lambda>c. c \<noteq> CHR '':'') s) else s)"

definition rtrim :: "string \<Rightarrow> string" where
  "rtrim s = rev (dropWhile (\<lambda>c. uchar c \<le> uchar (CHR '' '')) (rev s))"

text \<open>The name the current node shows: the bytes \<^verbatim>\<open>[name_ptr, name_ptr+name_len)\<close>.\<close>

definition cur_name :: "reader \<Rightarrow> string" where
  "cur_name r = (case name_ptr r of None \<Rightarrow> [] | Some p \<Rightarrow> bytes (data r) p (name_len r))"

text \<open>
  A tag name for the comparison of \<^verbatim>\<open><x></x>\<close> with \<^verbatim>\<open><x/>\<close>: not empty, not starting like an
  end tag, a comment or a processing instruction, and free of whitespace, control bytes,
  \<^verbatim>\<open>>\<close> and \<^verbatim>\<open>/\<close>.
\<close>

definition tag_name_ok :: "string \<Rightarrow> bool" where
  "tag_name_ok x = (x \<noteq> [] \<and> hd x \<noteq> CHR ''/'' \<and> hd x \<noteq> CHR ''!'' \<and> hd x \<noteq> CHR ''?''
     \<and> list_all (\<lambda>c. uchar (CHR '' '') < uchar c \<and> c \<noteq> CHR ''>'' \<and> c \<noteq> CHR ''/'') x)"

text \<open>
  What a caller can see of the current node without regard to where it lies in the buffer:
  type, name bytes, depth, text bytes, empty flag, and the attributes as pairs of name and
  raw value.
\<close>

definition cur_text :: "reader \<Rightarrow> string" where
  "cur_text r = (case text_ptr r of None \<Rightarrow> [] | Some p \<Rightarrow> bytes (data r) p (text_len r))"

definition attr_pairs :: "reader \<Rightarrow> (string \<times> string) list" where
  "attr_pairs r = map (\<lambda>a. (attr_name (data r) a, bytes (data r) (val_ptr a) (val_len a))) (attrs r)"

definition node_view :: "reader \<Rightarrow> int \<times> string \<times> int \<times> string \<times> bool \<times> (string \<times> string) list" where
  "node_view r = (reader_node_type r, cur_name r, reader_depth r, cur_text r,
     reader_empty_element_p r, attr_pairs r)"


text \<open>The document of \<open>n\<close> start tags with the empty name, \<^verbatim>\<open><><>...\<close>, two bytes each.\<close>

definition open_tags :: "nat \<Rightarrow> string" where
  "open_tags n = concat (replicate n ''<>'')"


section \<open>How the state changes\<close>

text \<open>The pieces of the start-element branch.\<close>

lemma scan_elem_name_frame:
  "scan_elem_name r = r\<lparr>pos := pos (scan_elem_name r)\<rparr> \<and> pos r \<le> pos (scan_elem_name r)
     \<and> (pos r \<le> rsize r \<longrightarrow> pos (scan_elem_name r) \<le> rsize r)"
proof (induction r rule: scan_elem_name.induct)
  case (1 r)
  show ?case
  proof (cases "pos r < rsize r \<and> \<not> elem_name_stop (data r ! pos r)")
    case True
    then have eq: "scan_elem_name r = scan_elem_name (r\<lparr>pos := pos r + 1\<rparr>)"
      by (simp add: scan_elem_name.simps [of r])
    from True "1.IH" have ih:
      "scan_elem_name (r\<lparr>pos := pos r + 1\<rparr>)
         = r\<lparr>pos := pos r + 1\<rparr>\<lparr>pos := pos (scan_elem_name (r\<lparr>pos := pos r + 1\<rparr>))\<rparr>"
      "pos r + 1 \<le> pos (scan_elem_name (r\<lparr>pos := pos r + 1\<rparr>))"
      "pos (scan_elem_name (r\<lparr>pos := pos r + 1\<rparr>)) \<le> rsize r"
      by simp_all
    show ?thesis
      unfolding eq using ih(2,3) by (subst ih(1)) simp
  next
    case False
    then have "scan_elem_name r = r"
      by (auto simp: scan_elem_name.simps [of r])
    with False show ?thesis by auto
  qed
qed

lemma strip_prefix_bounds:
  assumes "strip_prefix d nptr nlen = (np, nl)"
  shows "nptr \<le> np \<and> np + nl = nptr + nlen"
proof (cases "memchr d nptr (CHR '':'') nlen")
  case None
  with assms show ?thesis by (simp add: strip_prefix_def)
next
  case (Some colon)
  from memchr_Some [OF Some] have "nptr \<le> colon" "colon < nptr + nlen" by simp_all
  with assms Some show ?thesis by (auto simp: strip_prefix_def Let_def)
qed

lemma trim_trailing_le: "trim_trailing d nptr n \<le> n"
  by (induction n) auto

lemma collapse_peek_outcome:
  assumes "pos r \<le> rsize r"
  shows "collapse_peek r nptr nlen
      = r\<lparr>pos := pos (collapse_peek r nptr nlen), is_empty := is_empty (collapse_peek r nptr nlen)\<rparr>
     \<and> pos r \<le> pos (collapse_peek r nptr nlen) \<and> pos (collapse_peek r nptr nlen) \<le> rsize r"
proof (cases "pos r + 1 < rsize r \<and> data r ! pos r = CHR ''<'' \<and> data r ! (pos r + 1) = CHR ''/''")
  case False
  then have "collapse_peek r nptr nlen = r" by (auto simp: collapse_peek_def)
  with assms show ?thesis by simp
next
  case True
  show ?thesis
  proof (cases "memchr (data r) (pos r + 2) (CHR ''>'') (rsize r - (pos r + 2))")
    case None
    with True have "collapse_peek r nptr nlen = r\<lparr>pos := pos r\<rparr>"
      by (simp add: collapse_peek_def Let_def)
    with assms show ?thesis by simp
  next
    case (Some gt)
    from memchr_upto [OF Some] have gt: "pos r \<le> gt + 1" "gt + 1 \<le> rsize r" by simp_all
    from True Some have "collapse_peek r nptr nlen = r\<lparr>is_empty := True, pos := gt + 1\<rparr>
        \<or> collapse_peek r nptr nlen = r\<lparr>pos := pos r\<rparr>"
      by (simp add: collapse_peek_def Let_def split: prod.splits)
    with gt assms show ?thesis by auto
  qed
qed

text \<open>The start-element branch as a whole.\<close>

lemma read_start_element_outcome:
  assumes "pos r \<le> rsize r"
  defines "r' \<equiv> read_start_element r"
  shows "r' = r\<lparr>pos := pos r', depth := depth r', report_depth := depth r,
            node_type := TYPE_ELEMENT, is_empty := is_empty r', name_ptr := name_ptr r',
            name_len := name_len r', attrs := attrs r'\<rparr>"
    and "pos (scan_elem_name r) \<le> pos r'" and "pos r' \<le> rsize r"
    and "depth r' = (if is_empty r' then depth r else c_int (depth r + 1))"
    and "\<forall>x\<in>set (attrs r'). attr_ok (data r) x" and "attr_count r' \<le> MAX_ATTRS"
    and "(case name_ptr r' of None \<Rightarrow> False
          | Some np \<Rightarrow> (np, name_len r')
              = strip_prefix (data r) (pos r) (pos (scan_elem_name r) - pos r))"
proof -
  define e where "e = pos (scan_elem_name r)"
  have e1: "scan_elem_name r = r\<lparr>pos := e\<rparr>" and pe: "pos r \<le> e" "e \<le> rsize r"
    using scan_elem_name_frame [of r] assms(1) by (simp_all add: e_def)
  obtain np nl where sp: "strip_prefix (data r) (pos r) (e - pos r) = (np, nl)"
    by (cases "strip_prefix (data r) (pos r) (e - pos r)")
  define r1 where "r1 = r\<lparr>pos := e, name_ptr := Some np, name_len := nl, node_type := TYPE_ELEMENT\<rparr>"
  define p2 where "p2 = pos (parse_attrs r1)"
  define e2 where "e2 = is_empty (parse_attrs r1)"
  define as2 where "as2 = attrs (parse_attrs r1)"
  have "pos r1 \<le> rsize r1" using pe by (simp add: r1_def)
  from parse_attrs_outcome [OF this]
  have o2: "parse_attrs r1 = r1\<lparr>pos := p2, is_empty := e2, attrs := as2\<rparr>"
    "e \<le> p2" "p2 \<le> rsize r"
    "\<forall>x\<in>set as2. attr_ok (data r) x" "length as2 \<le> MAX_ATTRS"
    by (simp_all add: p2_def e2_def as2_def) (simp_all add: r1_def)
  define r2 where "r2 = r\<lparr>pos := p2, name_ptr := Some np, name_len := nl, node_type := TYPE_ELEMENT,
      is_empty := e2, attrs := as2\<rparr>"
  have f2: "parse_attrs r1 = r2"
    by (rule trans [OF o2(1)]) (simp add: r1_def r2_def)
  define p3 where "p3 = pos (collapse_peek r2 np nl)"
  define e3 where "e3 = is_empty (collapse_peek r2 np nl)"
  have "pos r2 \<le> rsize r2" using o2(3) by (simp add: r2_def)
  from collapse_peek_outcome [OF this, of np nl]
  have o3: "collapse_peek r2 np nl = r2\<lparr>pos := p3, is_empty := e3\<rparr>" "p2 \<le> p3" "p3 \<le> rsize r"
    by (simp_all add: p3_def e3_def) (simp_all add: r2_def)
  have r': "r' = (if e2 then r2\<lparr>report_depth := depth r\<rparr>
                 else if e3 then r2\<lparr>pos := p3, is_empty := True, report_depth := depth r\<rparr>
                 else r2\<lparr>pos := p3, is_empty := False, report_depth := depth r,
                        depth := c_int (depth r + 1)\<rparr>)"
    unfolding r'_def read_start_element_def
    apply (simp add: Let_def e1 sp r1_def [symmetric] f2 o3(1) split del: if_split cong: if_cong)
    apply (simp add: r2_def)
    done
  consider (a) "e2" "r' = r2\<lparr>report_depth := depth r\<rparr>"
    | (b) "\<not> e2" "e3" "r' = r2\<lparr>pos := p3, is_empty := True, report_depth := depth r\<rparr>"
    | (c) "\<not> e2" "\<not> e3"
        "r' = r2\<lparr>pos := p3, is_empty := False, report_depth := depth r,
                depth := c_int (depth r + 1)\<rparr>"
    using r' by (cases e2; cases e3; simp)
  then have all: "r' = r\<lparr>pos := pos r', depth := depth r', report_depth := depth r,
            node_type := TYPE_ELEMENT, is_empty := is_empty r', name_ptr := name_ptr r',
            name_len := name_len r', attrs := attrs r'\<rparr>
     \<and> p2 \<le> pos r' \<and> pos r' \<le> rsize r
     \<and> depth r' = (if is_empty r' then depth r else c_int (depth r + 1))
     \<and> attrs r' = as2 \<and> name_ptr r' = Some np \<and> name_len r' = nl"
  proof cases
    case a
    then show ?thesis using o2(3) by (simp add: r2_def)
  next
    case b
    then show ?thesis using o3(2,3) by (simp add: r2_def)
  next
    case c
    then show ?thesis using o3(2,3) by (simp add: r2_def)
  qed
  from all show "r' = r\<lparr>pos := pos r', depth := depth r', report_depth := depth r,
            node_type := TYPE_ELEMENT, is_empty := is_empty r', name_ptr := name_ptr r',
            name_len := name_len r', attrs := attrs r'\<rparr>" by blast
  from all o2(2) show "pos (scan_elem_name r) \<le> pos r'" by (simp add: e_def [symmetric])
  from all show "pos r' \<le> rsize r" by blast
  from all show "depth r' = (if is_empty r' then depth r else c_int (depth r + 1))" by blast
  from all o2(4) show "\<forall>x\<in>set (attrs r'). attr_ok (data r) x" by simp
  from all o2(5) show "attr_count r' \<le> MAX_ATTRS" by simp
  from all sp show "(case name_ptr r' of None \<Rightarrow> False
          | Some np \<Rightarrow> (np, name_len r')
              = strip_prefix (data r) (pos r) (pos (scan_elem_name r) - pos r))"
    by (simp add: e_def)
qed

text \<open>
  The loop of \<^verbatim>\<open>reader_read_internal\<close> returns from a pass that started with the cursor at
  the same place or further on, and the state otherwise the same.
\<close>

lemma read_loop_returns:
  "\<exists>r1. r1 = r\<lparr>pos := pos r1\<rparr> \<and> pos r \<le> pos r1 \<and> (pos r \<le> rsize r \<longrightarrow> pos r1 \<le> rsize r)
     \<and> read_step r1 = Return (read_loop r)"
proof (induction r rule: read_loop.induct)
  case (1 r)
  show ?case
  proof (cases "read_step r")
    case (Return res)
    then have "read_loop r = res" by (simp add: read_loop.simps [of r])
    with Return show ?thesis by (intro exI [of _ r]) simp
  next
    case (Again r')
    then have eq: "read_loop r = read_loop r'" by (simp add: read_loop.simps [of r])
    from read_step_Again [OF Again] have r': "r' = r\<lparr>pos := pos r'\<rparr>" "pos r < pos r'"
      "pos r' \<le> rsize r" by simp_all
    then have d: "data r' = data r" by (auto dest: frame_pos(1))
    from "1.IH" [OF Again] obtain r1 where r1: "r1 = r'\<lparr>pos := pos r1\<rparr>" "pos r' \<le> pos r1"
      "pos r' \<le> rsize r' \<longrightarrow> pos r1 \<le> rsize r'" "read_step r1 = Return (read_loop r')"
      by blast
    have "r1 = r\<lparr>pos := pos r1\<rparr>" by (rule frame_pos_trans [OF r'(1) r1(1)])
    with r1 r' d show ?thesis unfolding eq by (intro exI [of _ r1]) simp
  qed
qed

text \<open>The five ways in which a pass returns.\<close>

lemma read_step_Return_cases:
  assumes "read_step r = Return (b, r')"
  shows "(\<not> b \<and> r' = r \<and> rsize r \<le> pos r)
     \<or> (\<not> b \<and> r' = r\<lparr>pos := pos r + 1\<rparr> \<and> pos r + 1 = rsize r)
     \<or> (pos r + 1 < rsize r \<and> data r ! pos r = CHR ''<'' \<and> data r ! (pos r + 1) = CHR ''/''
          \<and> (b, r') = read_end_element (r\<lparr>pos := pos r + 2\<rparr>))
     \<or> (pos r + 1 < rsize r \<and> data r ! pos r = CHR ''<'' \<and> b
          \<and> r' = read_start_element (r\<lparr>pos := pos r + 1\<rparr>))
     \<or> (pos r < rsize r \<and> data r ! pos r \<noteq> CHR ''<'' \<and> read_text r = Return (b, r'))"
proof (cases "at_end r")
  case True
  with assms show ?thesis by (simp add: read_step_def at_end_def)
next
  case ne: False
  show ?thesis
  proof (cases "data r ! pos r = CHR ''<''")
    case False
    with assms ne show ?thesis by (simp add: read_step_def at_end_def)
  next
    case lt: True
    show ?thesis
    proof (cases "rsize r \<le> pos r + 1")
      case True
      with assms ne lt show ?thesis by (simp add: read_step_def at_end_def)
    next
      case False
      with assms ne lt show ?thesis
        unfolding read_step_def Let_def
        by (simp add: at_end_def split: if_splits)
    qed
  qed
qed

text \<open>The end-element and text branches.\<close>

lemma read_end_element_outcome:
  assumes "read_end_element r = (b, r')"
  shows "if b
     then (\<exists>gt np nl. memchr (data r) (pos r) (CHR ''>'') (rsize r - pos r) = Some gt
            \<and> strip_prefix (data r) (pos r) (gt - pos r) = (np, nl)
            \<and> r' = r\<lparr>pos := gt + 1, name_ptr := Some np,
                  name_len := trim_trailing (data r) np nl,
                  node_type := TYPE_END_ELEMENT, is_empty := False,
                  depth := (if depth r > 0 then depth r - 1 else depth r),
                  report_depth := (if depth r > 0 then depth r - 1 else depth r)\<rparr>)
     else (r' = r\<lparr>pos := rsize r\<rparr>
            \<and> memchr (data r) (pos r) (CHR ''>'') (rsize r - pos r) = None)"
proof (cases "memchr (data r) (pos r) (CHR ''>'') (rsize r - pos r)")
  case None
  with assms show ?thesis by (auto simp: read_end_element_def)
next
  case (Some gt)
  obtain np nl where sp: "strip_prefix (data r) (pos r) (gt - pos r) = (np, nl)"
    by (cases "strip_prefix (data r) (pos r) (gt - pos r)")
  from assms Some sp have "b" and "r' = r\<lparr>pos := gt + 1, name_ptr := Some np,
                  name_len := trim_trailing (data r) np nl,
                  node_type := TYPE_END_ELEMENT, is_empty := False,
                  depth := (if depth r > 0 then depth r - 1 else depth r),
                  report_depth := (if depth r > 0 then depth r - 1 else depth r)\<rparr>"
    by (auto simp: read_end_element_def Let_def)
  with Some sp show ?thesis by simp
qed

lemma read_text_Return:
  assumes "read_text r = Return (b, r')" and "pos r < rsize r" and "data r ! pos r \<noteq> CHR ''<''"
  shows "b \<and> (\<exists>te. pos r < te \<and> te \<le> rsize r \<and> \<not> is_blank (data r) (pos r) (te - pos r)
     \<and> r' = r\<lparr>pos := te, node_type := TYPE_TEXT, report_depth := depth r,
            text_ptr := Some (pos r), text_len := te - pos r,
            text_has_entity := (memchr (data r) (pos r) (CHR ''&'') (te - pos r) \<noteq> None),
            is_empty := False, name_ptr := None, name_len := 0\<rparr>)"
proof -
  define text_end where "text_end = (case memchr (data r) (pos r) (CHR ''<'') (rsize r - pos r) of
                        Some lt \<Rightarrow> lt | None \<Rightarrow> rsize r)"
  have te: "pos r < text_end \<and> text_end \<le> rsize r"
  proof (cases "memchr (data r) (pos r) (CHR ''<'') (rsize r - pos r)")
    case None
    with assms(2) show ?thesis by (simp add: text_end_def)
  next
    case (Some lt)
    from memchr_Some [OF Some] assms(2) have "pos r \<le> lt" "lt < rsize r" "data r ! lt = CHR ''<''"
      by simp_all
    with assms(3) have "pos r < lt" by (cases "lt = pos r") auto
    with \<open>lt < rsize r\<close> Some show ?thesis by (simp add: text_end_def)
  qed
  from assms(1) have "b" "\<not> is_blank (data r) (pos r) (text_end - pos r)"
    "r' = r\<lparr>pos := text_end, node_type := TYPE_TEXT, report_depth := depth r,
            text_ptr := Some (pos r), text_len := text_end - pos r,
            text_has_entity := (memchr (data r) (pos r) (CHR ''&'') (text_end - pos r) \<noteq> None),
            is_empty := False, name_ptr := None, name_len := 0\<rparr>"
    unfolding read_text_def Let_def text_end_def [symmetric] by (auto split: if_splits)
  with te show ?thesis by blast
qed

text \<open>
  What every call of the loop of \<^verbatim>\<open>reader_read_internal\<close> guarantees: the buffer and the name
  cache are untouched, the cursor moves forward within the buffer, strictly when a node is
  reported and to the end of the buffer when none is, the depth is reported and updated by
  the rule of the node type, and the attribute table stays well-formed and within its
  capacity.
\<close>

definition read_inv :: "reader \<Rightarrow> bool \<Rightarrow> reader \<Rightarrow> bool" where
  "read_inv r b r' \<longleftrightarrow>
     data r' = data r \<and> name_cache r' = name_cache r
     \<and> pos r \<le> pos r' \<and> pos r' \<le> rsize r
     \<and> (if b then pos r < pos r' else pos r' = rsize r)
     \<and> (if b
          then (node_type r' = TYPE_ELEMENT \<and> report_depth r' = depth r
                  \<and> depth r' = (if is_empty r' then depth r else c_int (depth r + 1)))
             \<or> (node_type r' = TYPE_END_ELEMENT
                  \<and> report_depth r' = (if 0 < depth r then depth r - 1 else depth r)
                  \<and> depth r' = report_depth r')
             \<or> (node_type r' = TYPE_TEXT \<and> report_depth r' = depth r \<and> depth r' = depth r)
          else depth r' = depth r)
     \<and> ((\<forall>x\<in>set (attrs r). attr_ok (data r) x) \<longrightarrow> (\<forall>x\<in>set (attrs r'). attr_ok (data r) x))
     \<and> (attr_count r \<le> MAX_ATTRS \<longrightarrow> attr_count r' \<le> MAX_ATTRS)"

lemma read_inv_frame:
  "read_inv r1 b r' \<Longrightarrow> r1 = r\<lparr>pos := p\<rparr> \<Longrightarrow> pos r \<le> p \<Longrightarrow> p \<le> rsize r \<Longrightarrow> read_inv r b r'"
  by (auto simp: read_inv_def split: if_splits)

lemma read_step_inv:
  assumes "read_step r = Return (b, r')" and "pos r \<le> rsize r"
  shows "read_inv r b r'"
proof -
  from read_step_Return_cases [OF assms(1)]
  consider (eof) "\<not> b" "r' = r" "rsize r \<le> pos r"
    | (lt_eof) "\<not> b" "r' = r\<lparr>pos := pos r + 1\<rparr>" "pos r + 1 = rsize r"
    | (end_tag) "pos r + 1 < rsize r" "(b, r') = read_end_element (r\<lparr>pos := pos r + 2\<rparr>)"
    | (start_tag) "pos r + 1 < rsize r" "b" "r' = read_start_element (r\<lparr>pos := pos r + 1\<rparr>)"
    | (content) "pos r < rsize r" "data r ! pos r \<noteq> CHR ''<''" "read_text r = Return (b, r')"
    by blast
  then show ?thesis
  proof cases
    case eof
    with assms(2) show ?thesis by (simp add: read_inv_def)
  next
    case lt_eof
    then show ?thesis by (simp add: read_inv_def)
  next
    case end_tag
    from read_end_element_outcome [OF end_tag(2) [symmetric]] show ?thesis
    proof (cases b)
      case False
      with \<open>if b then _ else _\<close> end_tag(1) show ?thesis by (simp add: read_inv_def)
    next
      case True
      with \<open>if b then _ else _\<close> obtain gt np nl where
        gt: "memchr (data r) (pos r + 2) (CHR ''>'') (rsize r - (pos r + 2)) = Some gt"
        and r': "r' = r\<lparr>pos := gt + 1, name_ptr := Some np,
                  name_len := trim_trailing (data r) np nl,
                  node_type := TYPE_END_ELEMENT, is_empty := False,
                  depth := (if depth r > 0 then depth r - 1 else depth r),
                  report_depth := (if depth r > 0 then depth r - 1 else depth r)\<rparr>"
        by (auto cong: if_cong)
      from memchr_upto [OF gt] have "pos r + 2 \<le> gt" "gt < rsize r" by simp_all
      with True show ?thesis unfolding r' by (simp add: read_inv_def)
    qed
  next
    case start_tag
    define r1 where "r1 = r\<lparr>pos := pos r + 1\<rparr>"
    have p1: "pos r1 \<le> rsize r1" using start_tag(1) by (simp add: r1_def)
    note o = read_start_element_outcome [OF p1, folded start_tag(3) [folded r1_def]]
    have f: "data r' = data r" "name_cache r' = name_cache r" "report_depth r' = depth r"
      "node_type r' = TYPE_ELEMENT"
      by (subst o(1), simp add: r1_def)+
    have "pos r1 \<le> pos (scan_elem_name r1)" using scan_elem_name_frame [of r1] by simp
    with o(2) have "pos r < pos r'" by (simp add: r1_def)
    moreover from o(3) have "pos r' \<le> rsize r" by (simp add: r1_def)
    moreover from o(4) have "depth r' = (if is_empty r' then depth r else c_int (depth r + 1))"
      by (simp add: r1_def)
    moreover from o(5) have "\<forall>x\<in>set (attrs r'). attr_ok (data r) x" by (simp add: r1_def)
    ultimately show ?thesis using start_tag(2) f o(6) by (simp add: read_inv_def)
  next
    case content
    from read_text_Return [OF content(3,1,2)] show ?thesis
      by (auto simp: read_inv_def)
  qed
qed

lemma read_loop_inv:
  assumes "read_loop r = (b, r')" and "pos r \<le> rsize r"
  shows "read_inv r b r'"
proof -
  from read_loop_returns [of r] assms obtain r1 where r1: "r1 = r\<lparr>pos := pos r1\<rparr>"
    "pos r \<le> pos r1" "pos r1 \<le> rsize r" "read_step r1 = Return (b, r')"
    by auto
  from r1(1) have "data r1 = data r" by (auto dest: frame_pos(1))
  with r1(3) have "pos r1 \<le> rsize r1" by simp
  from read_step_inv [OF r1(4) this] show ?thesis
    by (rule read_inv_frame) (use r1 in auto)
qed

text \<open>The same for \<^verbatim>\<open>read\<close> and for sequences of calls.\<close>

lemma reader_read_inv:
  assumes "reader_read r = (b, r')" and "pos r \<le> rsize r"
  shows "read_inv (r\<lparr>decoded_text := Qnil, text_ptr := None, text_len := 0,
                  text_has_entity := False, attrs := []\<rparr>) b r'"
  using assms by (intro read_loop_inv) (simp_all add: reader_read_def reader_read_internal_def)

lemma c_int_id: "- 2147483648 \<le> x \<Longrightarrow> x < 2147483648 \<Longrightarrow> c_int x = x"
  by (simp add: c_int_def)

lemma reader_read_facts:
  assumes "reader_read r = (b, r')" and "pos r \<le> rsize r"
  shows "data r' = data r" and "name_cache r' = name_cache r"
    and "pos r \<le> pos r'" and "pos r' \<le> rsize r"
    and "b \<Longrightarrow> pos r < pos r'" and "\<not> b \<Longrightarrow> pos r' = rsize r"
    and "0 \<le> depth r \<Longrightarrow> depth r < 2147483647 \<Longrightarrow> 0 \<le> depth r'"
    and "0 \<le> depth r \<Longrightarrow> b \<Longrightarrow> 0 \<le> report_depth r'"
    and "\<forall>x\<in>set (attrs r'). attr_ok (data r) x" and "attr_count r' \<le> MAX_ATTRS"
    and "b \<Longrightarrow> node_type r' = TYPE_END_ELEMENT \<Longrightarrow>
      report_depth r' = (if 0 < depth r then depth r - 1 else depth r) \<and> depth r' = report_depth r'"
    and "0 \<le> depth r \<Longrightarrow> depth r + int (rsize r - pos r) \<le> 2147483647 \<Longrightarrow>
      0 \<le> depth r' \<and> depth r' + int (rsize r - pos r') \<le> 2147483647"
  using reader_read_inv [OF assms]
  by (auto simp: read_inv_def MAX_ATTRS_def TYPE_ELEMENT_def TYPE_END_ELEMENT_def TYPE_TEXT_def
      c_int_id split: if_splits)

lemma read_seq_Suc: "read_seq (Suc n) r = snd (reader_read (read_seq n r))"
  by (induction n arbitrary: r) simp_all

lemma read_seq_facts:
  assumes "pos r \<le> rsize r"
  shows "data (read_seq n r) = data r \<and> pos r \<le> pos (read_seq n r) \<and> pos (read_seq n r) \<le> rsize r
    \<and> (0 \<le> depth r \<and> depth r + int (rsize r - pos r) \<le> 2147483647 \<longrightarrow>
         0 \<le> depth (read_seq n r)
         \<and> depth (read_seq n r) + int (rsize r - pos (read_seq n r)) \<le> 2147483647)"
proof (induction n)
  case 0
  from assms show ?case by simp
next
  case (Suc n)
  obtain b r' where rd: "reader_read (read_seq n r) = (b, r')"
    by (cases "reader_read (read_seq n r)")
  from Suc have "pos (read_seq n r) \<le> rsize (read_seq n r)" by simp
  from reader_read_facts(1,3,4,12) [OF rd this] Suc show ?case
    by (simp add: read_seq_Suc rd del: read_seq.simps)
qed



section \<open>Where scanning stops\<close>

text \<open>Where the skippers stop: after their terminator, or at the end of the buffer.\<close>

lemma bytes_Suc: "p < length d \<Longrightarrow> bytes d p (Suc n) = d ! p # bytes d (Suc p) n"
  by (simp add: bytes_def Cons_nth_drop_Suc [symmetric])

lemma bytes_0 [simp]: "bytes d p 0 = []"
  by (simp add: bytes_def)












section \<open>Properties of the name cache\<close>

lemma slot_ok_grow: "slot_ok h e \<Longrightarrow> slot_ok (h @ [bs]) e"
  by (auto simp: slot_ok_def nth_append split: option.splits)

lemma intern_probe_bytes:
  assumes "cache_ok h r" and "intern_probe h r name idx i = (v, h', r')"
  shows "rb_string h' v = Some name \<and> cache_ok h' r' \<and> take (length h) h' = h
    \<and> data r' = data r \<and> pos r' = pos r"
  using assms
proof (induction h r name idx i rule: intern_probe.induct)
  case (1 h r name idx i)
  define slot where "slot = unat ((idx + of_nat i) AND NAME_CACHE_MASK)"
  define e where "e = name_cache r slot"
  have fresh: "rb_string (h @ [name]) (Str (length h)) = Some name"
    by (simp add: rb_string_def)
  show ?case
  proof (cases "i < 8")
    case False
    with "1.prems"(2) have "v = Str (length h)" "h' = h @ [name]" "r' = r"
      by (simp_all add: intern_probe.simps [of h r name idx i] rb_enc_str_new_def)
    with "1.prems"(1) fresh show ?thesis
      by (auto simp: cache_ok_def intro: slot_ok_grow)
  next
    case lt: True
    show ?thesis
    proof (cases "ptr e")
      case None
      with lt "1.prems"(2) have res: "v = Str (length h)" "h' = h @ [name]"
        "r' = r\<lparr>name_cache := (name_cache r)
               (slot := \<lparr>ptr = Some (length h), len = length name, rb_str = Str (length h)\<rparr>)\<rparr>"
        by (auto simp: intern_probe.simps [of h r name idx i] rb_enc_str_new_def Let_def
            slot_def [symmetric] e_def [symmetric])
      have "slot_ok (h @ [name]) \<lparr>ptr = Some (length h), len = length name, rb_str = Str (length h)\<rparr>"
        by (simp add: slot_ok_def)
      with "1.prems"(1) have "cache_ok h' r'"
        unfolding res by (auto simp: cache_ok_def intro: slot_ok_grow)
      with res fresh show ?thesis by simp
    next
      case (Some a)
      from "1.prems"(1) have ok: "slot_ok h e" by (simp add: cache_ok_def e_def)
      with Some have a: "a < length h" "rb_str e = Str a" "len e = length (h ! a)"
        by (simp_all add: slot_ok_def)
      show ?thesis
      proof (cases "len e = length name \<and> take (length name) (h ! a) = name")
        case True
        with lt Some "1.prems"(2) have res: "v = rb_str e" "h' = h" "r' = r"
          by (simp_all add: intern_probe.simps [of h r name idx i] Let_def
              slot_def [symmetric] e_def [symmetric])
        from True a have "take (length (h ! a)) (h ! a) = name" by simp
        then have "h ! a = name" by simp
        with res a "1.prems"(1) show ?thesis by (simp add: rb_string_def)
      next
        case False
        with lt Some "1.prems"(2) have "intern_probe h r name idx (i + 1) = (v, h', r')"
          by (auto simp: intern_probe.simps [of h r name idx i] Let_def
              slot_def [symmetric] e_def [symmetric])
        from "1.IH" [OF lt slot_def e_def Some False "1.prems"(1) this] show ?thesis .
      qed
    qed
  qed
qed

lemma cache_ok_new: "cache_ok [] (reader_new d)"
  by (simp add: cache_ok_def slot_ok_def reader_new_def)

section \<open>Properties of names\<close>

lemma bytes_append: "bytes d p (m + n) = bytes d p m @ bytes d (p + m) n"
  by (simp add: bytes_def take_add add.commute)

lemma length_bytes_eq: "p + n \<le> length d \<Longrightarrow> length (bytes d p n) = n"
  by (simp add: bytes_def)

lemma memchr_takeWhile:
  "s + n \<le> length d \<Longrightarrow>
     (case memchr d s c n of
        None \<Rightarrow> c \<notin> set (bytes d s n)
      | Some i \<Rightarrow> s \<le> i \<and> i < s + n \<and> d ! i = c
          \<and> takeWhile (\<lambda>x. x \<noteq> c) (bytes d s n) = bytes d s (i - s))"
proof (induction d s c n rule: memchr.induct)
  case (1 d s c)
  then show ?case by simp
next
  case (2 d s c n)
  from "2.prems" have lt: "s < length d" by simp
  have b: "bytes d s (Suc n) = d ! s # bytes d (Suc s) n" by (rule bytes_Suc [OF lt])
  show ?case
  proof (cases "d ! s = c")
    case True
    then show ?thesis by (simp add: b)
  next
    case False
    with "2.IH" "2.prems" have ih: "case memchr d (Suc s) c n of
        None \<Rightarrow> c \<notin> set (bytes d (Suc s) n)
      | Some i \<Rightarrow> Suc s \<le> i \<and> i < Suc s + n \<and> d ! i = c
          \<and> takeWhile (\<lambda>x. x \<noteq> c) (bytes d (Suc s) n) = bytes d (Suc s) (i - Suc s)"
      by simp
    show ?thesis
    proof (cases "memchr d (Suc s) c n")
      case None
      with ih False show ?thesis by (auto simp: b)
    next
      case (Some i)
      with ih have i: "Suc s \<le> i" "i < Suc s + n" "d ! i = c"
        "takeWhile (\<lambda>x. x \<noteq> c) (bytes d (Suc s) n) = bytes d (Suc s) (i - Suc s)" by simp_all
      from i(1) have "i - s = Suc (i - Suc s)" by simp
      then have "bytes d s (i - s) = d ! s # bytes d (Suc s) (i - Suc s)"
        using bytes_Suc [OF lt] by simp
      with Some False i show ?thesis by (simp add: b)
    qed
  qed
qed

lemma strip_prefix_local_part:
  assumes "s + n \<le> length d" and "strip_prefix d s n = (np, nl)"
  shows "bytes d np nl = local_part (bytes d s n) \<and> s \<le> np \<and> np + nl = s + n"
proof (cases "memchr d s (CHR '':'') n")
  case None
  with memchr_takeWhile [OF assms(1), of "CHR '':''"] assms(2) show ?thesis
    by (simp add: strip_prefix_def local_part_def)
next
  case (Some i)
  with memchr_takeWhile [OF assms(1), of "CHR '':''"]
  have i: "s \<le> i" "i < s + n" "d ! i = CHR '':''"
    "takeWhile (\<lambda>x. x \<noteq> CHR '':'') (bytes d s n) = bytes d s (i - s)" by simp_all
  from Some assms(2) i(1) have np: "np = i + 1" "nl = n - (i - s + 1)"
    by (auto simp: strip_prefix_def Let_def)
  have n: "n = (i - s) + (1 + (n - (i - s + 1)))" using i by simp
  have il: "i < length d" using i assms(1) by simp
  have split: "bytes d s n = bytes d s (i - s) @ d ! i # bytes d (i + 1) (n - (i - s + 1))"
    using i bytes_Suc [OF il, of "n - (i - s + 1)"]
    by (subst n, subst bytes_append, subst bytes_append) (simp add: bytes_Suc [OF il, of 0])
  have "CHR '':'' \<notin> set (takeWhile (\<lambda>x. x \<noteq> CHR '':'') (bytes d s n))"
    by (auto dest: set_takeWhileD)
  then have nin: "CHR '':'' \<notin> set (bytes d s (i - s))"
    by (simp add: i(4))
  have "dropWhile (\<lambda>x. x \<noteq> CHR '':'') (bytes d s (i - s) @ d ! i # bytes d (i + 1) (n - (i - s + 1)))
      = dropWhile (\<lambda>x. x \<noteq> CHR '':'') (d ! i # bytes d (i + 1) (n - (i - s + 1)))"
    using nin by (intro dropWhile_append2) auto
  then have "dropWhile (\<lambda>x. x \<noteq> CHR '':'') (bytes d s n) = d ! i # bytes d (i + 1) (n - (i - s + 1))"
    using i(3) by (subst split) simp
  moreover have "CHR '':'' \<in> set (bytes d s n)" by (subst split) (simp add: i(3))
  ultimately show ?thesis using np i by (simp add: local_part_def)
qed

lemma trim_trailing_rtrim:
  "np + n \<le> length d \<Longrightarrow> bytes d np (trim_trailing d np n) = rtrim (bytes d np n)"
proof (induction n)
  case 0
  show ?case by (simp add: rtrim_def)
next
  case (Suc n)
  have b: "bytes d np (Suc n) = bytes d np n @ [d ! (np + n)]"
    using Suc.prems bytes_append [of d np n 1] bytes_Suc [of "np + n" d 0] by simp
  show ?case
  proof (cases "uchar (d ! (np + n)) \<le> uchar (CHR '' '')")
    case True
    with Suc show ?thesis by (simp add: b rtrim_def)
  next
    case False
    then show ?thesis by (simp add: b rtrim_def)
  qed
qed



lemma bytes_to_end: "bytes d s (length d - s) = drop s d"
  by (simp add: bytes_def)

lemma scan_elem_name_takeWhile:
  "pos r \<le> rsize r \<Longrightarrow>
     pos (scan_elem_name r)
       = pos r + length (takeWhile (\<lambda>c. \<not> elem_name_stop c) (drop (pos r) (data r)))"
proof (induction r rule: scan_elem_name.induct)
  case (1 r)
  show ?case
  proof (cases "pos r < rsize r")
    case False
    with "1.prems" show ?thesis by (simp add: scan_elem_name.simps [of r])
  next
    case True
    then have d: "drop (pos r) (data r) = data r ! pos r # drop (Suc (pos r)) (data r)"
      by (simp add: Cons_nth_drop_Suc)
    show ?thesis
    proof (cases "elem_name_stop (data r ! pos r)")
      case stop: True
      with True show ?thesis by (simp add: scan_elem_name.simps [of r] d)
    next
      case False
      with True "1.IH" have "pos (scan_elem_name (r\<lparr>pos := pos r + 1\<rparr>))
          = pos r + 1 + length (takeWhile (\<lambda>c. \<not> elem_name_stop c) (drop (pos r + 1) (data r)))"
        by simp
      with True False show ?thesis by (simp add: scan_elem_name.simps [of r] d)
    qed
  qed
qed






section \<open>Empty elements\<close>

text \<open>Reading the buffer through what remains from a position on.\<close>

lemma drop_eq_ConsD:
  assumes "drop p d = c # rest"
  shows "p < length d" and "d ! p = c" and "drop (Suc p) d = rest"
proof -
  show p: "p < length d" using assms by (cases "p < length d") auto
  from Cons_nth_drop_Suc [OF p] assms show "d ! p = c" and "drop (Suc p) d = rest" by simp_all
qed

lemma drop_eq_appendD:
  assumes "drop p d = x @ c # rest"
  shows "drop (p + length x) d = c # rest" and "bytes d p (length x) = x"
    and "p + length x < length d"
proof -
  have "drop (p + length x) d = drop (length x) (drop p d)" by (simp add: add.commute)
  then show "drop (p + length x) d = c # rest" by (simp add: assms)
  show "bytes d p (length x) = x" by (simp add: bytes_def assms)
  have "length (drop p d) = length x + Suc (length rest)" by (simp add: assms)
  then show "p + length x < length d" by simp
qed

lemma skip_spaces_id:
  "pos r < rsize r \<Longrightarrow> \<not> is_space (data r ! pos r) \<Longrightarrow> skip_spaces r = r"
  by (simp add: skip_spaces.simps [of r])

lemma scan_elem_name_run:
  assumes "drop (pos r) (data r) = x @ c # rest" and "\<forall>a\<in>set x. \<not> elem_name_stop a"
    and "elem_name_stop c"
  shows "scan_elem_name r = r\<lparr>pos := pos r + length x\<rparr>"
proof -
  from drop_eq_appendD(3) [OF assms(1)] have le: "pos r \<le> rsize r" by simp
  have "takeWhile (\<lambda>c. \<not> elem_name_stop c) (x @ c # rest) = x"
    using assms(2,3) by (simp add: takeWhile_tail)
  with scan_elem_name_takeWhile [OF le] assms(1)
  have "pos (scan_elem_name r) = pos r + length x" by simp
  with scan_elem_name_frame [of r] show ?thesis by simp
qed

lemma memchr_run:
  assumes "drop s d = x @ c # rest" and "c \<notin> set x"
  shows "memchr d s c (length d - s) = Some (s + length x)"
proof -
  from drop_eq_appendD(3) [OF assms(1)] have le: "s + (length d - s) \<le> length d" by simp
  have b: "bytes d s (length d - s) = x @ c # rest" by (simp add: bytes_to_end assms(1))
  have tw: "takeWhile (\<lambda>a. a \<noteq> c) (x @ c # rest) = x"
    using assms(2) by (auto simp: takeWhile_tail)
  show ?thesis
  proof (cases "memchr d s c (length d - s)")
    case None
    with memchr_takeWhile [OF le, of c] b show ?thesis by simp
  next
    case (Some i)
    with memchr_takeWhile [OF le, of c] have i: "s \<le> i" "i < s + (length d - s)"
      "takeWhile (\<lambda>a. a \<noteq> c) (bytes d s (length d - s)) = bytes d s (i - s)" by simp_all
    from i(3) have "x = bytes d s (i - s)" by (simp add: b tw)
    then have "length x = length (bytes d s (i - s))" by simp
    also have "\<dots> = i - s" using i(1,2) by (simp add: bytes_def)
    finally show ?thesis using i(1) Some by simp
  qed
qed

lemma rtrim_id:
  assumes "\<forall>a\<in>set s. uchar (CHR '' '') < uchar a"
  shows "rtrim s = s"
proof (cases "rev s")
  case Nil
  then show ?thesis by (simp add: rtrim_def)
next
  case (Cons a as)
  then have "a \<in> set s" by (metis list.set_intros(1) set_rev)
  with assms have "\<not> uchar a \<le> uchar (CHR '' '')" by auto
  with Cons have "dropWhile (\<lambda>c. uchar c \<le> uchar (CHR '' '')) (rev s) = rev s" by simp
  then show ?thesis by (simp add: rtrim_def)
qed

lemma set_local_part: "set (local_part s) \<subseteq> set s"
proof (cases "CHR '':'' \<in> set s")
  case False
  then show ?thesis by (simp add: local_part_def)
next
  case True
  have "set (tl (dropWhile (\<lambda>c. c \<noteq> CHR '':'') s)) \<subseteq> set (dropWhile (\<lambda>c. c \<noteq> CHR '':'') s)"
    by (metis list.set_sel(2) subsetI tl_Nil)
  also have "\<dots> \<subseteq> set s" by (auto dest: set_dropWhileD)
  finally show ?thesis using True by (simp add: local_part_def)
qed

text \<open>The attribute parser at the end of a tag.\<close>

lemma parse_attrs_gt:
  assumes "pos r < rsize r" and "data r ! pos r = CHR ''>''"
  shows "parse_attrs r = r\<lparr>attrs := [], is_empty := False, pos := pos r + 1\<rparr>"
proof -
  define r0 where "r0 = r\<lparr>attrs := [], is_empty := False\<rparr>"
  have s: "skip_spaces r0 = r0"
    using assms by (intro skip_spaces_id) (simp_all add: r0_def is_space_def)
  have f: "pos r0 = pos r" "data r0 = data r" by (simp_all add: r0_def)
  have "attr_step r0 = Return (r0\<lparr>pos := pos r0 + 1\<rparr>)"
    using assms by (simp add: attr_step_def s at_end_def f Let_def)
  then have "parse_attrs_loop r0 = r0\<lparr>pos := pos r0 + 1\<rparr>"
    using assms(1) by (subst parse_attrs_loop.simps) (simp add: f)
  then show ?thesis by (simp add: parse_attrs_def r0_def)
qed

lemma parse_attrs_slash_gt:
  assumes "pos r + 1 < rsize r" and "data r ! pos r = CHR ''/''" and "data r ! (pos r + 1) = CHR ''>''"
  shows "parse_attrs r = r\<lparr>attrs := [], is_empty := True, pos := pos r + 2\<rparr>"
proof -
  define r0 where "r0 = r\<lparr>attrs := [], is_empty := False\<rparr>"
  have s: "skip_spaces r0 = r0"
    using assms by (intro skip_spaces_id) (simp_all add: r0_def is_space_def)
  have f: "pos r0 = pos r" "data r0 = data r" by (simp_all add: r0_def)
  have "attr_step r0 = Return (r0\<lparr>is_empty := True, pos := pos r0 + 2\<rparr>)"
    using assms by (simp add: attr_step_def s at_end_def f Let_def)
  then have "parse_attrs_loop r0 = r0\<lparr>is_empty := True, pos := pos r0 + 2\<rparr>"
    using assms(1) by (subst parse_attrs_loop.simps) (simp add: f)
  then show ?thesis by (simp add: parse_attrs_def r0_def)
qed

lemma elem_name_stop_cases:
  "elem_name_stop c \<Longrightarrow> c = CHR ''>'' \<or> c = CHR ''/'' \<or> uchar c \<le> uchar (CHR '' '')"
  unfolding elem_name_stop_def uchar_def by (elim disjE) simp_all

lemma tag_name_ok_chars:
  assumes "tag_name_ok x" and "c \<in> set x"
  shows "\<not> elem_name_stop c" and "c \<noteq> CHR ''>''" and "uchar (CHR '' '') < uchar c"
proof -
  from assms have c: "uchar (CHR '' '') < uchar c \<and> c \<noteq> CHR ''>'' \<and> c \<noteq> CHR ''/''"
    unfolding tag_name_ok_def list_all_iff by blast
  then show "c \<noteq> CHR ''>''" and "uchar (CHR '' '') < uchar c" by simp_all
  from c elem_name_stop_cases [of c] show "\<not> elem_name_stop c" by auto
qed

lemma strip_prefix_name:
  assumes "drop s d = x @ c # rest"
  obtains np where "strip_prefix d s (length x) = (np, length (local_part x))"
    and "bytes d np (length (local_part x)) = local_part x"
    and "np + length (local_part x) \<le> length d"
proof -
  obtain np nl where sp: "strip_prefix d s (length x) = (np, nl)"
    by (cases "strip_prefix d s (length x)")
  from drop_eq_appendD [OF assms] have b: "bytes d s (length x) = x" "s + length x \<le> length d"
    by simp_all
  from strip_prefix_local_part [OF b(2) sp] b(1)
  have l: "bytes d np nl = local_part x" "np + nl = s + length x" by simp_all
  from l(2) b(2) have "np + nl \<le> length d" by simp
  from length_bytes_eq [OF this] l(1) have "nl = length (local_part x)" by simp
  with sp l \<open>np + nl \<le> length d\<close> that show ?thesis by simp
qed

lemma trim_trailing_name:
  assumes "bytes d np n = s" and "np + n \<le> length d" and "\<forall>a\<in>set s. uchar (CHR '' '') < uchar a"
  shows "trim_trailing d np n = n"
proof -
  from trim_trailing_rtrim [OF assms(2)] assms(1) rtrim_id [OF assms(3)]
  have "bytes d np (trim_trailing d np n) = bytes d np n" by simp
  then have "length (bytes d np (trim_trailing d np n)) = length (bytes d np n)" by simp
  moreover have "np + trim_trailing d np n \<le> length d"
    using trim_trailing_le [of d np n] assms(2) by simp
  ultimately show ?thesis using assms(2) by (simp add: length_bytes_eq)
qed

text \<open>The peek on \<^verbatim>\<open></x>\<close> after a start tag with the local name of \<open>x\<close>.\<close>

lemma collapse_peek_match:
  assumes d: "drop (pos r) (data r) = ''</'' @ x @ ''>'' @ suf" and x: "tag_name_ok x"
    and nb: "bytes (data r) np (length (local_part x)) = local_part x"
  shows "collapse_peek r np (length (local_part x)) = r\<lparr>is_empty := True, pos := pos r + length x + 3\<rparr>"
proof -
  let ?m = "length x"
  let ?l = "length (local_part x)"
  define peek where "peek = pos r + 2"
  have d0: "drop (pos r) (data r) = CHR ''<'' # (CHR ''/'' # x @ ''>'' @ suf)" using d by simp
  note g0 = drop_eq_ConsD [OF d0]
  from g0(3) have d1: "drop (pos r + 1) (data r) = CHR ''/'' # x @ ''>'' @ suf" by simp
  note g1 = drop_eq_ConsD [OF d1]
  from g1(3) have d2: "drop peek (data r) = x @ CHR ''>'' # suf" by (simp add: peek_def)
  have mc: "memchr (data r) peek (CHR ''>'') (rsize r - peek) = Some (peek + ?m)"
    using tag_name_ok_chars(2) [OF x] by (intro memchr_run [OF d2]) blast
  from strip_prefix_name [OF d2] obtain cp where
    sp2: "strip_prefix (data r) peek ?m = (cp, ?l)"
    and cb: "bytes (data r) cp ?l = local_part x" and cl: "cp + ?l \<le> rsize r" by blast
  have "\<forall>a\<in>set (local_part x). uchar (CHR '' '') < uchar a"
    using set_local_part [of x] tag_name_ok_chars(3) [OF x] by blast
  from trim_trailing_name [OF cb cl this] have tt: "trim_trailing (data r) cp ?l = ?l" .
  have c: "pos r + 1 < rsize r \<and> data r ! pos r = CHR ''<'' \<and> data r ! (pos r + 1) = CHR ''/''"
    using g0 g1 by simp
  have "collapse_peek r np ?l = r\<lparr>is_empty := True, pos := peek + ?m + 1\<rparr>"
    unfolding collapse_peek_def Let_def peek_def [symmetric]
    by (simp only: c if_True mc option.case diff_add_inverse sp2 prod.case tt cb nb simp_thms)
  then show ?thesis by (simp add: peek_def)
qed

text \<open>The start-element branch on \<^verbatim>\<open>x></x>\<close> and on \<^verbatim>\<open>x/>\<close>.\<close>

lemma read_start_element_unfold:
  assumes "scan_elem_name r = r\<lparr>pos := e\<rparr>"
    and "strip_prefix (data r) (pos r) (e - pos r) = (np, nl)"
    and "parse_attrs (r\<lparr>pos := e, name_ptr := Some np, name_len := nl, node_type := TYPE_ELEMENT\<rparr>) = r2"
    and "(if \<not> is_empty r2 then collapse_peek r2 np nl else r2) = r3"
  shows "read_start_element r
    = (if \<not> is_empty r3 then r3\<lparr>report_depth := depth r3, depth := c_int (depth r3 + 1)\<rparr>
       else r3\<lparr>report_depth := depth r3\<rparr>)"
  unfolding read_start_element_def using assms by (auto simp: Let_def split: if_splits)

lemma read_start_element_pair:
  assumes d: "drop (pos r) (data r) = x @ ''></'' @ x @ ''>'' @ suf" and x: "tag_name_ok x"
  obtains np where
    "read_start_element r = r\<lparr>pos := pos r + 2 * length x + 4, name_ptr := Some np,
       name_len := length (local_part x), node_type := TYPE_ELEMENT, attrs := [],
       is_empty := True, report_depth := depth r\<rparr>"
    and "bytes (data r) np (length (local_part x)) = local_part x"
proof -
  let ?m = "length x"
  let ?l = "length (local_part x)"
  have d0: "drop (pos r) (data r) = x @ CHR ''>'' # (''</'' @ x @ ''>'' @ suf)" using d by simp
  have ns: "\<forall>a\<in>set x. \<not> elem_name_stop a" using tag_name_ok_chars(1) [OF x] by blast
  have e1: "scan_elem_name r = r\<lparr>pos := pos r + ?m\<rparr>"
    by (rule scan_elem_name_run [OF d0 ns]) (simp add: elem_name_stop_def)
  from strip_prefix_name [OF d0] obtain np where sp: "strip_prefix (data r) (pos r) ?m = (np, ?l)"
    and nb: "bytes (data r) np ?l = local_part x" by blast
  from sp have sp': "strip_prefix (data r) (pos r) (pos r + ?m - pos r) = (np, ?l)" by simp
  from drop_eq_appendD(1) [OF d0]
  have d1: "drop (pos r + ?m) (data r) = CHR ''>'' # (''</'' @ x @ ''>'' @ suf)" .
  note g1 = drop_eq_ConsD [OF d1]
  define r1 where "r1 = r\<lparr>pos := pos r + ?m, name_ptr := Some np, name_len := ?l,
    node_type := TYPE_ELEMENT\<rparr>"
  define r2 where "r2 = r1\<lparr>attrs := [], is_empty := False, pos := pos r1 + 1\<rparr>"
  have pa: "parse_attrs r1 = r2"
    unfolding r2_def using g1 by (intro parse_attrs_gt) (simp_all add: r1_def)
  have f2: "pos r2 = pos r + ?m + 1" "data r2 = data r" "is_empty r2 = False" "depth r2 = depth r"
    by (simp_all add: r2_def r1_def)
  have "drop (pos r2) (data r2) = ''</'' @ x @ ''>'' @ suf" using g1(3) by (simp add: f2)
  from collapse_peek_match [OF this x] nb
  have cpk: "collapse_peek r2 np ?l = r2\<lparr>is_empty := True, pos := pos r2 + ?m + 3\<rparr>"
    by (simp add: f2)
  define r3 where "r3 = r2\<lparr>is_empty := True, pos := pos r2 + ?m + 3\<rparr>"
  have c3: "(if \<not> is_empty r2 then collapse_peek r2 np ?l else r2) = r3"
    by (simp add: f2 cpk r3_def)
  have "read_start_element r = r3\<lparr>report_depth := depth r3\<rparr>"
    by (subst read_start_element_unfold [OF e1 sp' pa [unfolded r1_def] c3]) (simp add: r3_def)
  then have "read_start_element r = r\<lparr>pos := pos r + 2 * length x + 4, name_ptr := Some np,
       name_len := length (local_part x), node_type := TYPE_ELEMENT, attrs := [],
       is_empty := True, report_depth := depth r\<rparr>"
    by (simp add: r3_def r2_def r1_def)
  with nb that show ?thesis by blast
qed

lemma read_start_element_selfclosing:
  assumes d: "drop (pos r) (data r) = x @ ''/>'' @ suf" and x: "tag_name_ok x"
  obtains np where
    "read_start_element r = r\<lparr>pos := pos r + length x + 2, name_ptr := Some np,
       name_len := length (local_part x), node_type := TYPE_ELEMENT, attrs := [],
       is_empty := True, report_depth := depth r\<rparr>"
    and "bytes (data r) np (length (local_part x)) = local_part x"
proof -
  let ?m = "length x"
  let ?l = "length (local_part x)"
  have d0: "drop (pos r) (data r) = x @ CHR ''/'' # (CHR ''>'' # suf)" using d by simp
  have ns: "\<forall>a\<in>set x. \<not> elem_name_stop a" using tag_name_ok_chars(1) [OF x] by blast
  have e1: "scan_elem_name r = r\<lparr>pos := pos r + ?m\<rparr>"
    by (rule scan_elem_name_run [OF d0 ns]) (simp add: elem_name_stop_def)
  from strip_prefix_name [OF d0] obtain np where sp: "strip_prefix (data r) (pos r) ?m = (np, ?l)"
    and nb: "bytes (data r) np ?l = local_part x" by blast
  from sp have sp': "strip_prefix (data r) (pos r) (pos r + ?m - pos r) = (np, ?l)" by simp
  note g1 = drop_eq_ConsD [OF drop_eq_appendD(1) [OF d0]]
  note g2 = drop_eq_ConsD [OF g1(3)]
  define r1 where "r1 = r\<lparr>pos := pos r + ?m, name_ptr := Some np, name_len := ?l,
    node_type := TYPE_ELEMENT\<rparr>"
  define r2 where "r2 = r1\<lparr>attrs := [], is_empty := True, pos := pos r1 + 2\<rparr>"
  have pa: "parse_attrs r1 = r2"
    unfolding r2_def using g1 g2 by (intro parse_attrs_slash_gt) (simp_all add: r1_def)
  have c3: "(if \<not> is_empty r2 then collapse_peek r2 np ?l else r2) = r2"
    by (simp add: r2_def)
  have "read_start_element r = r2\<lparr>report_depth := depth r2\<rparr>"
    by (subst read_start_element_unfold [OF e1 sp' pa [unfolded r1_def] c3]) (simp add: r2_def)
  then have "read_start_element r = r\<lparr>pos := pos r + length x + 2, name_ptr := Some np,
       name_len := length (local_part x), node_type := TYPE_ELEMENT, attrs := [],
       is_empty := True, report_depth := depth r\<rparr>"
    by (simp add: r2_def r1_def)
  with nb that show ?thesis by blast
qed

lemma read_step_start:
  assumes "drop (pos r) (data r) = CHR ''<'' # c # rest"
    and "c \<noteq> CHR ''/''" and "c \<noteq> CHR ''!''" and "c \<noteq> CHR ''?''"
  shows "read_step r = Return (True, read_start_element (r\<lparr>pos := pos r + 1\<rparr>))"
proof -
  note g0 = drop_eq_ConsD [OF assms(1)]
  from g0(3) have "drop (pos r + 1) (data r) = c # rest" by simp
  note g1 = drop_eq_ConsD [OF this]
  from g0 g1 assms(2-4) show ?thesis
    by (simp add: read_step_def at_end_def Let_def)
qed

lemma reader_read_start:
  assumes "drop (pos r) (data r) = CHR ''<'' # c # rest"
    and "c \<noteq> CHR ''/''" and "c \<noteq> CHR ''!''" and "c \<noteq> CHR ''?''"
  shows "reader_read r = (True, read_start_element
    (r\<lparr>decoded_text := Qnil, text_ptr := None, text_len := 0, text_has_entity := False,
        attrs := [], pos := pos r + 1\<rparr>))"
proof -
  define r0 where "r0 = r\<lparr>decoded_text := Qnil, text_ptr := None, text_len := 0,
    text_has_entity := False, attrs := []\<rparr>"
  have "drop (pos r0) (data r0) = CHR ''<'' # c # rest" using assms(1) by (simp add: r0_def)
  from read_step_start [OF this assms(2-4)]
  have "read_loop r0 = (True, read_start_element (r0\<lparr>pos := pos r0 + 1\<rparr>))"
    by (subst read_loop.simps) simp
  then show ?thesis by (simp add: reader_read_def reader_read_internal_def r0_def)
qed

lemma reader_read_pair:
  assumes x: "tag_name_ok x" and d: "drop (pos r) (data r) = ''<'' @ x @ ''></'' @ x @ ''>'' @ suf"
  shows "fst (reader_read r)"
    and "node_view (snd (reader_read r)) = (TYPE_ELEMENT, local_part x, depth r, [], True, [])"
    and "depth (snd (reader_read r)) = depth r"
    and "drop (pos (snd (reader_read r))) (data (snd (reader_read r))) = suf"
proof -
  from x obtain c x' where xc: "x = c # x'" "c \<noteq> CHR ''/''" "c \<noteq> CHR ''!''" "c \<noteq> CHR ''?''"
    by (cases x) (auto simp: tag_name_ok_def)
  define r0 where "r0 = r\<lparr>decoded_text := Qnil, text_ptr := None, text_len := 0,
    text_has_entity := False, attrs := [], pos := pos r + 1\<rparr>"
  have "drop (pos r) (data r) = CHR ''<'' # c # (x' @ ''></'' @ x @ ''>'' @ suf)"
    using d by (simp add: xc(1))
  from reader_read_start [OF this xc(2-4)]
  have rd: "reader_read r = (True, read_start_element r0)" by (simp add: r0_def)
  have "drop (pos r) (data r) = CHR ''<'' # (x @ ''></'' @ x @ ''>'' @ suf)" using d by simp
  from drop_eq_ConsD(3) [OF this]
  have d0: "drop (pos r0) (data r0) = x @ ''></'' @ x @ ''>'' @ suf" by (simp add: r0_def)
  from read_start_element_pair [OF d0 x] obtain np where
    e: "read_start_element r0 = r0\<lparr>pos := pos r0 + 2 * length x + 4, name_ptr := Some np,
       name_len := length (local_part x), node_type := TYPE_ELEMENT, attrs := [],
       is_empty := True, report_depth := depth r0\<rparr>"
    and nb: "bytes (data r0) np (length (local_part x)) = local_part x" by blast
  have f0: "data r0 = data r" "depth r0 = depth r" "text_ptr r0 = None" "pos r0 = pos r + 1"
    by (simp_all add: r0_def)
  show "fst (reader_read r)" by (simp add: rd)
  show "node_view (snd (reader_read r)) = (TYPE_ELEMENT, local_part x, depth r, [], True, [])"
    using nb by (simp add: rd e node_view_def reader_node_type_def cur_name_def reader_depth_def
        cur_text_def reader_empty_element_p_def attr_pairs_def f0)
  show "depth (snd (reader_read r)) = depth r" by (simp add: rd e f0)
  have "drop (pos r0 + length (x @ ''></'' @ x)) (data r0) = CHR ''>'' # suf"
    by (rule drop_eq_appendD(1)) (use d0 in simp)
  from drop_eq_ConsD(3) [OF this]
  have dn: "drop (Suc (pos r0 + length (x @ ''></'' @ x))) (data r0) = suf" .
  have pn: "pos (snd (reader_read r)) = Suc (pos r0 + length (x @ ''></'' @ x))" by (simp add: rd e)
  have dd: "data (snd (reader_read r)) = data r0" by (simp add: rd e)
  show "drop (pos (snd (reader_read r))) (data (snd (reader_read r))) = suf"
    unfolding pn dd by (rule dn)
qed

lemma reader_read_selfclosing:
  assumes x: "tag_name_ok x" and d: "drop (pos r) (data r) = ''<'' @ x @ ''/>'' @ suf"
  shows "fst (reader_read r)"
    and "node_view (snd (reader_read r)) = (TYPE_ELEMENT, local_part x, depth r, [], True, [])"
    and "depth (snd (reader_read r)) = depth r"
    and "drop (pos (snd (reader_read r))) (data (snd (reader_read r))) = suf"
proof -
  from x obtain c x' where xc: "x = c # x'" "c \<noteq> CHR ''/''" "c \<noteq> CHR ''!''" "c \<noteq> CHR ''?''"
    by (cases x) (auto simp: tag_name_ok_def)
  define r0 where "r0 = r\<lparr>decoded_text := Qnil, text_ptr := None, text_len := 0,
    text_has_entity := False, attrs := [], pos := pos r + 1\<rparr>"
  have "drop (pos r) (data r) = CHR ''<'' # c # (x' @ ''/>'' @ suf)"
    using d by (simp add: xc(1))
  from reader_read_start [OF this xc(2-4)]
  have rd: "reader_read r = (True, read_start_element r0)" by (simp add: r0_def)
  have "drop (pos r) (data r) = CHR ''<'' # (x @ ''/>'' @ suf)" using d by simp
  from drop_eq_ConsD(3) [OF this]
  have d0: "drop (pos r0) (data r0) = x @ ''/>'' @ suf" by (simp add: r0_def)
  from read_start_element_selfclosing [OF d0 x] obtain np where
    e: "read_start_element r0 = r0\<lparr>pos := pos r0 + length x + 2, name_ptr := Some np,
       name_len := length (local_part x), node_type := TYPE_ELEMENT, attrs := [],
       is_empty := True, report_depth := depth r0\<rparr>"
    and nb: "bytes (data r0) np (length (local_part x)) = local_part x" by blast
  have f0: "data r0 = data r" "depth r0 = depth r" "text_ptr r0 = None" "pos r0 = pos r + 1"
    by (simp_all add: r0_def)
  show "fst (reader_read r)" by (simp add: rd)
  show "node_view (snd (reader_read r)) = (TYPE_ELEMENT, local_part x, depth r, [], True, [])"
    using nb by (simp add: rd e node_view_def reader_node_type_def cur_name_def reader_depth_def
        cur_text_def reader_empty_element_p_def attr_pairs_def f0)
  show "depth (snd (reader_read r)) = depth r" by (simp add: rd e f0)
  have "drop (pos r0 + length (x @ ''/'')) (data r0) = CHR ''>'' # suf"
    by (rule drop_eq_appendD(1)) (use d0 in simp)
  from drop_eq_ConsD(3) [OF this]
  have dn: "drop (Suc (pos r0 + length (x @ ''/''))) (data r0) = suf" .
  have pn: "pos (snd (reader_read r)) = Suc (pos r0 + length (x @ ''/''))" by (simp add: rd e)
  have dd: "data (snd (reader_read r)) = data r0" by (simp add: rd e)
  show "drop (pos (snd (reader_read r))) (data (snd (reader_read r))) = suf"
    unfolding pn dd by (rule dn)
qed


section \<open>The depth counter\<close>

lemma open_tags_Suc: "open_tags (Suc n) = CHR ''<'' # CHR ''>'' # open_tags n"
  by (simp add: open_tags_def)

lemma open_tags_no_close: "take 2 (open_tags n) \<noteq> ''</''"
  by (cases n) (simp_all add: open_tags_def)

lemma c_int_Suc: "c_int (c_int x + 1) = c_int (x + 1)"
proof -
  have "(x + 2147483648) mod 4294967296 + 1
      = ((x + 2147483648) mod 4294967296 - 2147483648 + 1) + 2147483648"
    by simp
  moreover have "((x + 2147483648) mod 4294967296 + 1) mod 4294967296
      = (x + 2147483648 + 1) mod 4294967296"
    by (rule mod_add_left_eq)
  ultimately show ?thesis by (simp add: c_int_def algebra_simps)
qed

lemma take2_drop:
  assumes "p + 1 < length d"
  shows "take 2 (drop p d) = [d ! p, d ! (p + 1)]"
proof -
  from assms have "drop p d = d ! p # drop (Suc p) d" by (simp add: Cons_nth_drop_Suc)
  moreover from assms have "drop (Suc p) d = d ! Suc p # drop (Suc (Suc p)) d"
    by (simp add: Cons_nth_drop_Suc)
  ultimately show ?thesis by (simp add: numeral_2_eq_2)
qed

lemma collapse_peek_no_close:
  assumes "take 2 (drop (pos r) (data r)) \<noteq> ''</''"
  shows "collapse_peek r np nl = r"
proof (cases "pos r + 1 < rsize r")
  case False
  then show ?thesis by (simp add: collapse_peek_def)
next
  case True
  from take2_drop [OF True] assms
  have "\<not> (data r ! pos r = CHR ''<'' \<and> data r ! (pos r + 1) = CHR ''/'')" by auto
  then show ?thesis by (auto simp: collapse_peek_def)
qed

text \<open>A read at a start tag with the empty name that no closing tag follows at once.\<close>

lemma reader_read_open_tag:
  assumes d: "drop (pos r) (data r) = CHR ''<'' # CHR ''>'' # rest"
    and n: "take 2 rest \<noteq> ''</''"
  shows "fst (reader_read r)"
    and "data (snd (reader_read r)) = data r"
    and "pos (snd (reader_read r)) = pos r + 2"
    and "report_depth (snd (reader_read r)) = depth r"
    and "depth (snd (reader_read r)) = c_int (depth r + 1)"
    and "node_type (snd (reader_read r)) = TYPE_ELEMENT"
    and "drop (pos (snd (reader_read r))) (data (snd (reader_read r))) = rest"
proof -
  define r0 where "r0 = r\<lparr>decoded_text := Qnil, text_ptr := None, text_len := 0,
    text_has_entity := False, attrs := [], pos := pos r + 1\<rparr>"
  from reader_read_start [OF d]
  have rd: "reader_read r = (True, read_start_element r0)" by (simp add: r0_def)
  from drop_eq_ConsD(3) [OF d]
  have d0: "drop (pos r0) (data r0) = CHR ''>'' # rest" by (simp add: r0_def)
  note g0 = drop_eq_ConsD [OF d0]
  have e1: "scan_elem_name r0 = r0\<lparr>pos := pos r0\<rparr>"
    using g0(1,2) by (simp add: scan_elem_name.simps [of r0] elem_name_stop_def)
  have sp: "strip_prefix (data r0) (pos r0) (pos r0 - pos r0) = (pos r0, 0)"
    by (simp add: strip_prefix_def)
  define r1 where "r1 = r0\<lparr>pos := pos r0, name_ptr := Some (pos r0), name_len := 0,
    node_type := TYPE_ELEMENT\<rparr>"
  define r2 where "r2 = r1\<lparr>attrs := [], is_empty := False, pos := pos r1 + 1\<rparr>"
  have pa: "parse_attrs r1 = r2"
    unfolding r2_def using g0 by (intro parse_attrs_gt) (simp_all add: r1_def)
  have f2: "pos r2 = pos r + 2" "data r2 = data r" "is_empty r2 = False" "depth r2 = depth r"
    "node_type r2 = TYPE_ELEMENT"
    by (simp_all add: r2_def r1_def r0_def)
  have d2: "drop (pos r2) (data r2) = rest" using g0(3) by (simp add: f2) (simp add: r0_def)
  have c3: "(if \<not> is_empty r2 then collapse_peek r2 (pos r0) 0 else r2) = r2"
    using collapse_peek_no_close [of r2 "pos r0" 0] n by (simp add: d2)
  have rs: "read_start_element r0 = r2\<lparr>report_depth := depth r2, depth := c_int (depth r2 + 1)\<rparr>"
    by (subst read_start_element_unfold [OF e1 sp pa [unfolded r1_def] c3]) (simp add: f2)
  show "fst (reader_read r)" by (simp add: rd)
  show "data (snd (reader_read r)) = data r" by (simp add: rd rs f2)
  show "pos (snd (reader_read r)) = pos r + 2" by (simp add: rd rs f2)
  show "report_depth (snd (reader_read r)) = depth r" by (simp add: rd rs f2)
  show "depth (snd (reader_read r)) = c_int (depth r + 1)" by (simp add: rd rs f2)
  show "node_type (snd (reader_read r)) = TYPE_ELEMENT" by (simp add: rd rs f2)
  show "drop (pos (snd (reader_read r))) (data (snd (reader_read r))) = rest"
    using d2 by (simp add: rd rs)
qed

text \<open>The reads of the first \<open>n\<close> of \<open>m\<close> such tags, from a depth of zero.\<close>

lemma read_seq_open_tags:
  assumes "drop (pos r) (data r) = open_tags m" and "depth r = 0" and "n \<le> m"
  shows "drop (pos (read_seq n r)) (data (read_seq n r)) = open_tags (m - n)
    \<and> depth (read_seq n r) = c_int (int n)"
  using assms(3)
proof (induction n)
  case 0
  from assms(1,2) show ?case by (simp add: c_int_def)
next
  case (Suc n)
  then have ih: "drop (pos (read_seq n r)) (data (read_seq n r)) = open_tags (m - n)"
    "depth (read_seq n r) = c_int (int n)" by simp_all
  from Suc.prems have "m - n = Suc (m - Suc n)" by simp
  then have d: "drop (pos (read_seq n r)) (data (read_seq n r))
      = CHR ''<'' # CHR ''>'' # open_tags (m - Suc n)"
    using ih(1) open_tags_Suc [of "m - Suc n"] by simp
  note o = reader_read_open_tag [OF d open_tags_no_close]
  have "depth (read_seq (Suc n) r) = c_int (c_int (int n) + 1)"
    unfolding read_seq_Suc using o(5) by (simp only: ih(2))
  also have "\<dots> = c_int (int n + 1)" by (rule c_int_Suc)
  also have "int n + 1 = int (Suc n)" by simp
  finally show ?case using o(7) by (simp only: read_seq_Suc simp_thms)
qed

lemma length_open_tags: "length (open_tags n) = 2 * n"
  by (induction n) (simp_all add: open_tags_Suc, simp add: open_tags_def)

text \<open>
  While the depth counter stays below \<^verbatim>\<open>INT_MAX\<close>, which it must when the depth and the bytes
  left together do not exceed \<^verbatim>\<open>INT_MAX\<close> (a fresh reader on an input of at most
  2147483647 bytes), it is not negative after any number of reads, and a further read that
  reports a node reports a depth that is not negative: for an end tag, the counter
  decremented with a floor at 0.
\<close>

lemma depth_nonneg_below_int_max:
  assumes "pos r \<le> rsize r" and "0 \<le> depth r"
    and "(\<forall>k<n. depth (read_seq k r) < 2147483647)
       \<or> depth r + int (rsize r - pos r) \<le> 2147483647"
  shows "0 \<le> depth (read_seq n r)
    \<and> (fst (reader_read (read_seq n r)) \<longrightarrow>
         0 \<le> reader_depth (snd (reader_read (read_seq n r)))
         \<and> (reader_node_type (snd (reader_read (read_seq n r))) = TYPE_END_ELEMENT \<longrightarrow>
              reader_depth (snd (reader_read (read_seq n r))) = max 0 (depth (read_seq n r) - 1)))"
proof -
  have p: "pos (read_seq k r) \<le> rsize (read_seq k r)" for k
    using read_seq_facts [OF assms(1), of k] by simp
  have d: "0 \<le> depth (read_seq n r)"
    using assms(3)
  proof
    assume "depth r + int (rsize r - pos r) \<le> 2147483647"
    with read_seq_facts [OF assms(1), of n] assms(2) show ?thesis by simp
  next
    assume b: "\<forall>k<n. depth (read_seq k r) < 2147483647"
    have "m \<le> n \<Longrightarrow> 0 \<le> depth (read_seq m r)" for m
    proof (induction m)
      case 0
      from assms(2) show ?case by simp
    next
      case (Suc m)
      obtain c r' where rd: "reader_read (read_seq m r) = (c, r')"
        by (cases "reader_read (read_seq m r)")
      from Suc b have "0 \<le> depth (read_seq m r)" "depth (read_seq m r) < 2147483647" by simp_all
      from reader_read_facts(7) [OF rd p this] show ?case
        by (simp add: read_seq_Suc rd del: read_seq.simps)
    qed
    then show ?thesis by simp
  qed
  obtain b r' where rd: "reader_read (read_seq n r) = (b, r')"
    by (cases "reader_read (read_seq n r)")
  from reader_read_facts(8,11) [OF rd p] d show ?thesis
    by (auto simp: rd reader_depth_def reader_node_type_def max_def)
qed


section \<open>Properties of the entity decoder\<close>

lemma length_utf8_encode: "length (utf8_encode cp) \<le> 4"
  by (simp add: utf8_encode_def)

lemma length_bytes: "length (bytes d p n) \<le> n"
  by (simp add: bytes_def)

lemma length_decode_one:
  assumes "amp < semi"
  shows "length (decode_one src amp semi) \<le> semi - amp + 1"
proof -
  let ?elen = "semi - amp - 1"
  have u: "1 < ?elen \<Longrightarrow> length (utf8_encode w) \<le> semi - amp + 1" for w
    using length_utf8_encode [of w] by linarith
  have b: "length (bytes src amp (semi - amp + 1)) \<le> semi - amp + 1"
    by (rule length_bytes)
  show ?thesis
  proof (cases "1 < ?elen \<and> src ! (amp + 1) = CHR ''#''")
    case True
    then show ?thesis
      unfolding decode_one_def Let_def using u by (simp only: if_True split: if_split) simp
  next
    case False
    then show ?thesis
      unfolding decode_one_def Let_def using b by (simp only: if_False split: if_split) simp
  qed
qed


lemma length_decode_loop:
  "p \<le> length src \<Longrightarrow> length (decode_loop src p buf) \<le> length buf + (length src - p)"
proof (induction src p buf rule: decode_loop.induct)
  case (1 src p buf)
  show ?case
  proof (cases "p < length src")
    case False
    then show ?thesis by (simp add: decode_loop.simps [of src p buf])
  next
    case True
    show ?thesis
    proof (cases "memchr src p (CHR ''&'') (length src - p)")
      case None
      with True show ?thesis
        using length_bytes [of src p "length src - p"]
        by (simp add: decode_loop.simps [of src p buf])
    next
      case (Some amp)
      then have amp: "p \<le> amp" "amp < length src"
        using memchr_Some [OF Some] True by simp_all
      define buf1 where "buf1 = (if amp > p then buf @ bytes src p (amp - p) else buf)"
      have lb1: "length buf1 \<le> length buf + (amp - p)"
        using length_bytes [of src p "amp - p"] by (auto simp: buf1_def)
      show ?thesis
      proof (cases "memchr src amp (CHR '';'') (length src - amp)")
        case None
        have "length (decode_loop src (amp + 1) (buf1 @ bytes src amp 1))
            \<le> length (buf1 @ bytes src amp 1) + (length src - (amp + 1))"
          using "1.IH"(1) [OF True Some buf1_def None] amp by simp
        also have "\<dots> \<le> length buf + (length src - p)"
          using lb1 amp length_bytes [of src amp 1] by simp
        finally show ?thesis
          using True Some None by (simp add: decode_loop.simps [of src p buf] buf1_def)
      next
        case (Some semi)
        note semi = this
        then have s: "amp \<le> semi" "semi < length src" "src ! semi = CHR '';''"
          using memchr_Some [OF Some] amp by simp_all
        have "src ! amp = CHR ''&''"
          using memchr_Some [OF \<open>memchr src p (CHR ''&'') (length src - p) = Some amp\<close>] by simp
        with s have lt: "amp < semi" by (cases "amp = semi") auto
        have "length (decode_loop src (semi + 1) (buf1 @ decode_one src amp semi))
            \<le> length (buf1 @ decode_one src amp semi) + (length src - (semi + 1))"
          using "1.IH"(2) [OF True \<open>memchr src p (CHR ''&'') (length src - p) = Some amp\<close> buf1_def semi] s by simp
        also have "\<dots> \<le> length buf + (length src - p)"
          using lb1 amp s lt length_decode_one [OF lt, of src] by simp
        finally show ?thesis
          using True \<open>memchr src p (CHR ''&'') (length src - p) = Some amp\<close> semi
          by (simp add: decode_loop.simps [of src p buf] buf1_def)
      qed
    qed
  qed
qed

text \<open>
  C7: the decoder applied to the bytes \<^verbatim>\<open>&amp;amp;\<close> yields exactly \<^verbatim>\<open>&amp;\<close>, and applied
  again to that result it yields exactly \<^verbatim>\<open>&\<close>.
\<close>

theorem decode_amp_amp:
  "decode_entities ''&amp;amp;'' = ''&amp;''
     \<and> decode_entities (decode_entities ''&amp;amp;'') = ''&''"
  by code_simp

text \<open>
  C8: for every source byte string, whatever mix of named, numeric, unknown or unterminated
  references it holds, the decoded output is at most as long as the source.
\<close>

theorem decode_entities_length: "length (decode_entities src) \<le> length src"
  using length_decode_loop [of 0 src "[]"] by (simp add: decode_entities_def)

section \<open>Properties of the scanner\<close>

text \<open>
  C1: on the document \<^verbatim>\<open><a><b>hi</b></a>\<close> the first five calls of read return true and show,
  in document order, the start of \<open>a\<close> at depth 0, the start of \<open>b\<close> at depth 1, the text
  \<open>hi\<close> at depth 2 with no name, the end of \<open>b\<close> at depth 1 and the end of \<open>a\<close> at depth 0,
  none of them an empty element; the sixth call returns false.
\<close>

theorem read_nested_text_document:
  "take 5 (reads 6 [] (reader_new ''<a><b>hi</b></a>'')) =
     [(True, TYPE_ELEMENT, Some ''a'', 0, None, False),
      (True, TYPE_ELEMENT, Some ''b'', 1, None, False),
      (True, TYPE_TEXT, None, 2, Some ''hi'', False),
      (True, TYPE_END_ELEMENT, Some ''b'', 1, None, False),
      (True, TYPE_END_ELEMENT, Some ''a'', 0, None, False)]
   \<and> fst (reads 6 [] (reader_new ''<a><b>hi</b></a>'') ! 5) = False"
  by code_simp

text \<open>
  C5, at the input where it fails.  The claim holds while the depth counter stays below
  \<^verbatim>\<open>INT_MAX\<close>; the increment for a start tag has no guard, and on the document of
  2147483649 start tags \<^verbatim>\<open><>\<close>, 4294967298 bytes long, 2147483648 reads take the counter
  from 0 up to \<^verbatim>\<open>INT_MAX\<close> and over it to -2147483648, and the read after them succeeds and
  reports an element at the depth -2147483648.
\<close>

theorem depth_counter_overflows:
  "rsize (reader_new (open_tags 2147483649)) = 4294967298
   \<and> depth (read_seq 2147483647 (reader_new (open_tags 2147483649))) = 2147483647
   \<and> fst (reader_read (read_seq 2147483648 (reader_new (open_tags 2147483649))))
   \<and> reader_node_type (snd (reader_read (read_seq 2147483648 (reader_new (open_tags 2147483649)))))
       = TYPE_ELEMENT
   \<and> reader_depth (snd (reader_read (read_seq 2147483648 (reader_new (open_tags 2147483649)))))
       = - 2147483648"
proof -
  define r where "r = reader_new (open_tags 2147483649)"
  have r: "drop (pos r) (data r) = open_tags 2147483649" "depth r = 0"
    by (simp_all add: r_def reader_new_def)
  have sz: "rsize r = 4294967298" by (simp add: r_def reader_new_def length_open_tags)
  from read_seq_open_tags [OF r, of 2147483647]
  have a: "depth (read_seq 2147483647 r) = 2147483647" by (simp add: c_int_def)
  from read_seq_open_tags [OF r, of 2147483648]
  have b: "drop (pos (read_seq 2147483648 r)) (data (read_seq 2147483648 r)) = open_tags (Suc 0)"
    "depth (read_seq 2147483648 r) = - 2147483648"
    by (simp_all add: c_int_def)
  from b(1) have "drop (pos (read_seq 2147483648 r)) (data (read_seq 2147483648 r))
      = CHR ''<'' # CHR ''>'' # open_tags 0"
    by (simp only: open_tags_Suc)
  note o = reader_read_open_tag [OF this open_tags_no_close]
  from sz a o(1,4,6) b(2) show ?thesis
    unfolding r_def [symmetric] reader_depth_def reader_node_type_def by simp
qed

text \<open>
  C6: from a state with the cursor within the buffer, every call of read in a sequence of
  calls leaves the buffer as it is and the cursor within the buffer and not before its
  place at the call; the self-closing peek, too, leaves the cursor no earlier than the
  place after the start tag where it began.
\<close>

theorem cursor_within_buffer_monotone:
  assumes "pos r \<le> rsize r"
  shows "data (read_seq n r) = data r \<and> pos (read_seq n r) \<le> rsize r
    \<and> pos (read_seq n r) \<le> pos (snd (reader_read (read_seq n r)))
    \<and> pos (snd (reader_read (read_seq n r))) \<le> rsize r
    \<and> pos r \<le> pos (collapse_peek r nptr nlen) \<and> pos (collapse_peek r nptr nlen) \<le> rsize r"
proof -
  from read_seq_facts [OF assms, of n]
  have p: "pos (read_seq n r) \<le> rsize (read_seq n r)" and d: "data (read_seq n r) = data r"
    by simp_all
  obtain b r' where rd: "reader_read (read_seq n r) = (b, r')"
    by (cases "reader_read (read_seq n r)")
  from reader_read_facts(3,4) [OF rd p] p d collapse_peek_outcome [OF assms, of nptr nlen]
  show ?thesis by (simp add: rd)
qed

theorem cursor_within_buffer_monotone_witness:
  "pos (read_seq 1 (reader_new ''<a></a><b>'')) = 7
     \<and> pos (read_seq 1 (reader_new ''<a></a><b>''))
         \<le> pos (snd (reader_read (read_seq 1 (reader_new ''<a></a><b>''))))
     \<and> pos (snd (reader_read (read_seq 1 (reader_new ''<a></a><b>''))))
         \<le> rsize (reader_new ''<a></a><b>'')"
proof -
  have h: "pos (reader_new ''<a></a><b>'') \<le> rsize (reader_new ''<a></a><b>'')"
    by (simp add: reader_new_def)
  have e: "pos (read_seq 1 (reader_new ''<a></a><b>'')) = 7" by code_simp
  from cursor_within_buffer_monotone [OF h, of 1] e show ?thesis
    by blast
qed



text \<open>
  C10: in every state whose name cache is consistent with the object space (the fresh
  reader's is, and \<^verbatim>\<open>intern_name\<close> keeps it so), \<^verbatim>\<open>intern_name\<close> returns a string whose bytes
  are exactly the bytes of the slice it was given, on a hit, on an insertion and when the
  probe window is full; the strings allocated before are unchanged.
\<close>

theorem intern_name_returns_slice:
  assumes "cache_ok h r" and "intern_name h r name = (v, h', r')"
  shows "rb_string h' v = Some name \<and> cache_ok h' r' \<and> take (length h) h' = h
    \<and> cache_ok [] (reader_new d)"
  using intern_probe_bytes [OF assms(1) assms(2) [unfolded intern_name_def]] cache_ok_new
  by simp

theorem intern_name_returns_slice_witness:
  "fnv1a ''ab'' AND NAME_CACHE_MASK = fnv1a ''wx'' AND NAME_CACHE_MASK
   \<and> (case intern_name [] (reader_new []) ''ab'' of (v1, h1, r1) \<Rightarrow>
        case intern_name h1 r1 ''wx'' of (v2, h2, r2) \<Rightarrow>
          rb_string h2 v2 = Some ''wx'' \<and> rb_string h1 v1 = Some ''ab'')"
proof -
  obtain v1 h1 r1 where i1: "intern_name [] (reader_new []) ''ab'' = (v1, h1, r1)"
    by (cases "intern_name [] (reader_new []) ''ab''")
  obtain v2 h2 r2 where i2: "intern_name h1 r1 ''wx'' = (v2, h2, r2)"
    by (cases "intern_name h1 r1 ''wx''")
  have c0: "cache_ok [] (reader_new [])"
    by (simp add: cache_ok_def slot_ok_def reader_new_def)
  from intern_name_returns_slice [OF c0 i1]
  have s1: "rb_string h1 v1 = Some ''ab''" and c1: "cache_ok h1 r1" by simp_all
  from intern_name_returns_slice [OF c1 i2]
  have s2: "rb_string h2 v2 = Some ''wx''" by simp
  have "fnv1a ''ab'' AND NAME_CACHE_MASK = fnv1a ''wx'' AND NAME_CACHE_MASK"
    by code_simp
  with s1 s2 show ?thesis by (simp add: i1 i2)
qed






text \<open>
  C2, as stated, fails for whitespace-only content: \<^verbatim>\<open><x> </x>\<close> is reported as a start tag
  that is not empty followed by an end tag, \<^verbatim>\<open><x/>\<close> as one empty element.
\<close>

theorem whitespace_pair_not_collapsed:
  "reads 2 [] (reader_new ''<x> </x>'')
     = [(True, TYPE_ELEMENT, Some ''x'', 0, None, False),
        (True, TYPE_END_ELEMENT, Some ''x'', 0, None, False)]
   \<and> take 1 (reads 2 [] (reader_new ''<x/>'')) = [(True, TYPE_ELEMENT, Some ''x'', 0, None, True)]
   \<and> fst (reads 2 [] (reader_new ''<x/>'') ! 1) = False"
  by code_simp

text \<open>
  C2, amended: for every tag name \<open>x\<close> (not empty, not starting with \<^verbatim>\<open>/\<close>, \<^verbatim>\<open>!\<close> or \<^verbatim>\<open>?\<close>, free of
  whitespace, control bytes, \<^verbatim>\<open>>\<close> and \<^verbatim>\<open>/\<close>), a read with the cursor at \<^verbatim>\<open><x></x>\<close>, with nothing
  between the two tags, and a read with the cursor at \<^verbatim>\<open><x/>\<close> both report one node, the same
  in both: an element with the local name of \<open>x\<close>, the empty flag set, no attributes, at
  the current depth.  Both leave the depth unchanged and the cursor at what follows the
  element, so no end tag is reported for \<open>x\<close>.
\<close>

theorem empty_pair_reads_as_selfclosing:
  assumes "tag_name_ok x"
    and "drop (pos r1) (data r1) = ''<'' @ x @ ''></'' @ x @ ''>'' @ suf"
    and "drop (pos r2) (data r2) = ''<'' @ x @ ''/>'' @ suf"
    and "depth r2 = depth r1"
  shows "fst (reader_read r1) \<and> fst (reader_read r2)
    \<and> node_view (snd (reader_read r1)) = (TYPE_ELEMENT, local_part x, depth r1, [], True, [])
    \<and> node_view (snd (reader_read r2)) = node_view (snd (reader_read r1))
    \<and> depth (snd (reader_read r1)) = depth r1 \<and> depth (snd (reader_read r2)) = depth r1
    \<and> drop (pos (snd (reader_read r1))) (data (snd (reader_read r1))) = suf
    \<and> drop (pos (snd (reader_read r2))) (data (snd (reader_read r2))) = suf"
  using reader_read_pair [OF assms(1,2)] reader_read_selfclosing [OF assms(1,3)] assms(4)
  by simp

theorem empty_pair_reads_as_selfclosing_witness:
  "node_view (snd (reader_read (reader_new ''<p:y></p:y>z''))) = (TYPE_ELEMENT, ''y'', 0, [], True, [])
     \<and> node_view (snd (reader_read (reader_new ''<p:y/>z'')))
         = node_view (snd (reader_read (reader_new ''<p:y></p:y>z'')))
     \<and> drop (pos (snd (reader_read (reader_new ''<p:y></p:y>z''))))
          (data (snd (reader_read (reader_new ''<p:y></p:y>z'')))) = ''z''"
proof -
  have x: "tag_name_ok ''p:y''" by (simp add: tag_name_ok_def uchar_def)
  have d1: "drop (pos (reader_new ''<p:y></p:y>z'')) (data (reader_new ''<p:y></p:y>z''))
      = ''<'' @ ''p:y'' @ ''></'' @ ''p:y'' @ ''>'' @ ''z''"
    by (simp add: reader_new_def)
  have d2: "drop (pos (reader_new ''<p:y/>z'')) (data (reader_new ''<p:y/>z''))
      = ''<'' @ ''p:y'' @ ''/>'' @ ''z''"
    by (simp add: reader_new_def)
  have dp: "depth (reader_new ''<p:y/>z'') = depth (reader_new ''<p:y></p:y>z'')"
    by (simp add: reader_new_def)
  have l: "local_part ''p:y'' = ''y''" by (simp add: local_part_def)
  have z: "depth (reader_new ''<p:y></p:y>z'') = 0" by (simp add: reader_new_def)
  from empty_pair_reads_as_selfclosing [OF x d1 d2 dp] show ?thesis
    unfolding l z by blast
qed

end
